theory Spec2Isabelle
  imports Complex_Main
begin

section \<open>Dual numbers\<close>

text \<open>
  Modelled from the spec: \<^verbatim>\<open>ceres/jet.h\<close> is included by the header but is not part of
  the sources at hand.  A \<^verbatim>\<open>Jet<double, Stride>\<close> pairs one primal scalar \<^verbatim>\<open>a\<close> with a
  vector \<^verbatim>\<open>v\<close> of \<^verbatim>\<open>Stride\<close> partial derivatives.  The scalar type is left as a type
  parameter: the engine only copies scalars and writes the constants zero and one.
  The selectors are called \<open>jet_a\<close> and \<open>jet_v\<close> for the fields \<^verbatim>\<open>a\<close> and \<^verbatim>\<open>v\<close>.
\<close>

datatype 'a Jet = Jet (jet_a: 'a) (jet_v: "'a list")

text \<open>Modelled from the spec: \<^verbatim>\<open>v.setZero()\<close> zeroes every entry of the derivative vector.\<close>

definition setZero :: "'a::zero Jet \<Rightarrow> 'a Jet" where
  "setZero x = Jet (jet_a x) (replicate (length (jet_v x)) 0)"

text \<open>Modelled from the spec: \<^verbatim>\<open>v[k] = 1.0\<close> seeds one derivative direction.\<close>

definition seed :: "nat \<Rightarrow> 'a::one Jet \<Rightarrow> 'a Jet" where
  "seed k x = Jet (jet_a x) ((jet_v x)[k := 1])"

text \<open>Modelled from the spec: a default-constructed jet of the given width is all zero.\<close>

definition zero_jet :: "nat \<Rightarrow> 'a::zero Jet" where
  "zero_jet Stride = Jet 0 (replicate Stride 0)"

text \<open>
  Modelled from the spec: sum and product of dual numbers by the chain rule
  (\<^verbatim>\<open>operator+\<close> and \<^verbatim>\<open>operator*\<close> of \<^verbatim>\<open>ceres/jet.h\<close>).
\<close>

definition jet_add :: "'a::semiring_1 Jet \<Rightarrow> 'a Jet \<Rightarrow> 'a Jet" where
  "jet_add f g = Jet (jet_a f + jet_a g) (map2 (+) (jet_v f) (jet_v g))"

definition jet_mul :: "'a::semiring_1 Jet \<Rightarrow> 'a Jet \<Rightarrow> 'a Jet" where
  "jet_mul f g =
     Jet (jet_a f * jet_a g)
         (map2 (+) (map (\<lambda>y. jet_a f * y) (jet_v g)) (map (\<lambda>x. x * jet_a g) (jet_v f)))"

section \<open>Single-precision rounding of the stride count\<close>

text \<open>
  The number of passes is computed as
  \<^verbatim>\<open>static_cast<int>(ceil(num_active_parameters / static_cast<float>(Stride)))\<close>:
  both operands are converted to \<^verbatim>\<open>float\<close>, the quotient is a \<^verbatim>\<open>float\<close>, and only then
  the ceiling is taken.  A finite \<^verbatim>\<open>float\<close> is a real number; \<open>float_round\<close> is
  round-to-nearest, ties-to-even, onto the 24-bit significands of IEEE binary32, for a
  positive argument in the normal range (all quotients of two positive \<^verbatim>\<open>int\<close>s are).
\<close>

fun log2_floor :: "nat \<Rightarrow> nat" where
  "log2_floor n = (if n < 2 then 0 else Suc (log2_floor (n div 2)))"

definition log2_ceil :: "nat \<Rightarrow> nat" where
  "log2_ceil n = (if n \<le> 1 then 0 else Suc (log2_floor (n - 1)))"

definition float_exponent :: "real \<Rightarrow> int" where
  "float_exponent q =
     (if 1 \<le> q then int (log2_floor (nat \<lfloor>q\<rfloor>)) else - int (log2_ceil (nat \<lceil>1 / q\<rceil>)))"

definition float_round :: "real \<Rightarrow> real" where
  "float_round q =
     (if q \<le> 0 then 0
      else let ulp = 2 powi (float_exponent q - 23);
               m = \<lfloor>q / ulp\<rfloor>;
               r = q / ulp - of_int m;
               m' = (if r < 1 / 2 then m
                     else if 1 / 2 < r then m + 1
                     else if even m then m else m + 1)
           in of_int m' * ulp)"

definition num_strides_of :: "nat \<Rightarrow> nat \<Rightarrow> nat" where
  "num_strides_of num_active Stride =
     nat \<lceil>float_round (float_round (of_nat num_active) / float_round (of_nat Stride))\<rceil>"

section \<open>The cost function object and the caller's buffers\<close>

text \<open>
  The functor is a template over the scalar kind \<^verbatim>\<open>T\<close>.  The engine instantiates it at
  \<^verbatim>\<open>double\<close> (\<open>plain\<close>) and at \<^verbatim>\<open>Jet<double, Stride>\<close> (\<open>dual\<close>; one HOL function for
  every width, the width being the length of the derivative vectors it is handed).
  Each instance receives the parameter pack and the output buffer, may overwrite the
  output buffer, and returns a success flag.
\<close>

record 'a cost_functor =
  plain :: "'a list list \<Rightarrow> 'a list \<Rightarrow> bool \<times> 'a list"
  dual :: "'a Jet list list \<Rightarrow> 'a Jet list \<Rightarrow> bool \<times> 'a Jet list"

text \<open>
  \<open>num_residuals\<close> is an \<^verbatim>\<open>int\<close> that is zero until \<^verbatim>\<open>SetNumResiduals\<close> is called.  The
  block sizes are \<^verbatim>\<open>int32_t\<close> in the source; they are natural numbers here, so a negative
  size is excluded, and their sum is taken to fit an \<^verbatim>\<open>int\<close>.
\<close>

record 'a cost_function =
  num_residuals :: int
  parameter_block_sizes :: "nat list"
  functor_ptr :: "'a cost_functor"

datatype error = CheckFailed | OutOfRange

text \<open>
  Every call of the functor is logged with what it was handed and the flag it returned:
  \<open>Plain\<close> for a call of the \<^verbatim>\<open>double\<close> instance on the caller's parameters, \<open>Dual\<close> for a
  call of the jet instance, with the content of \<^verbatim>\<open>input_jets\<close> at that moment.
\<close>

datatype 'a invocation = Plain "'a list list" bool | Dual "'a Jet list" bool

fun succeeded :: "'a invocation \<Rightarrow> bool" where
  "succeeded (Plain p ok) = ok"
| "succeeded (Dual jets ok) = ok"

fun seeded_jets :: "'a invocation \<Rightarrow> 'a Jet list" where
  "seeded_jets (Plain p ok) = []"
| "seeded_jets (Dual jets ok) = jets"

text \<open>
  The frame of one call of \<^verbatim>\<open>Evaluate\<close>: the caller's two output buffers, the scratch
  arrays, the loop variables, and two logs (the functor calls, and the Jacobian cells
  written, each with its block index, its linear offset and the value stored).
\<close>

record 'a frame =
  residuals :: "'a list"
  jacobians :: "'a list option list"
  input_jets :: "'a Jet list"
  output_jets :: "'a Jet list"
  parameter_cursor :: nat
  current_derivative_section :: nat
  current_derivative_section_cursor :: nat
  active_parameter_count :: nat
  invocations :: "'a invocation list"
  writes :: "(nat \<times> nat \<times> 'a) list"

text \<open>What the caller sees when the call is over.\<close>

record 'a outcome =
  returned :: bool
  residuals_out :: "'a list"
  jacobians_out :: "'a list option list option"
  calls :: "'a invocation list"
  cells_written :: "(nat \<times> nat) list"

section \<open>Loops\<close>

text \<open>A counted loop whose body may fail: the first failure ends it.\<close>

fun for_loop :: "'i list \<Rightarrow> ('i \<Rightarrow> 's \<Rightarrow> error + 's) \<Rightarrow> 's \<Rightarrow> error + 's" where
  "for_loop [] body s = Inr s"
| "for_loop (i # is) body s =
     (case body i s of Inl e \<Rightarrow> Inl e | Inr s' \<Rightarrow> for_loop is body s')"

subsection \<open>Discovery of the derivative sections\<close>

record 'a discovery =
  d_input_jets :: "'a Jet list"
  jet_parameters :: "nat list"
  num_active_parameters :: nat
  start_derivative_section :: "nat list"
  in_derivative_section :: bool
  d_parameter_cursor :: nat

text \<open>
  One iteration of the loop over the blocks (lines 169 to 187): the block's jets start
  at the cursor, a requested block opens a section unless one is open, a block that is
  not requested closes it, and the block's values become the primal parts.
\<close>

definition discover_block ::
  "nat list \<Rightarrow> 'a list list \<Rightarrow> 'a list option list \<Rightarrow> nat \<Rightarrow> 'a discovery \<Rightarrow> 'a discovery" where
  "discover_block sizes parameters jac i d =
     (let d1 = d\<lparr>jet_parameters := jet_parameters d @ [d_parameter_cursor d]\<rparr>;
          parameter_block_size = sizes ! i;
          d2 = (if jac ! i \<noteq> None
                then (if \<not> in_derivative_section d1
                      then d1\<lparr>start_derivative_section :=
                                 start_derivative_section d1 @ [d_parameter_cursor d1],
                               in_derivative_section := True\<rparr>
                      else d1)
                     \<lparr>num_active_parameters := num_active_parameters d1 + parameter_block_size\<rparr>
                else d1\<lparr>in_derivative_section := False\<rparr>)
      in fold (\<lambda>j d'. d'\<lparr>d_input_jets :=
                            (d_input_jets d')[d_parameter_cursor d' :=
                               Jet (parameters ! i ! j)
                                   (jet_v (d_input_jets d' ! d_parameter_cursor d'))],
                          d_parameter_cursor := Suc (d_parameter_cursor d')\<rparr>)
              [0..<parameter_block_size] d2)"

definition discover ::
  "nat \<Rightarrow> nat list \<Rightarrow> 'a::zero list list \<Rightarrow> 'a list option list \<Rightarrow> 'a discovery" where
  "discover Stride sizes parameters jac =
     fold (discover_block sizes parameters jac) [0..<length sizes]
       \<lparr>d_input_jets = replicate (sum_list sizes) (zero_jet Stride),
        jet_parameters = [],
        num_active_parameters = 0,
        start_derivative_section = [],
        in_derivative_section = False,
        d_parameter_cursor = 0\<rparr>"

subsection \<open>Seeding\<close>

text \<open>
  The body of the inner seeding loop (lines 227 to 240).  The read of
  \<^verbatim>\<open>start_derivative_section[current_derivative_section]\<close> is guarded by the first
  conjunct, as \<^verbatim>\<open>&&\<close> evaluates it; a read past the end of the vector is \<open>OutOfRange\<close>.
\<close>

definition seed_position ::
  "nat \<Rightarrow> nat list \<Rightarrow> 'a list option list \<Rightarrow> nat \<Rightarrow> nat \<Rightarrow> 'a::{zero,one} frame \<Rightarrow> error + 'a frame" where
  "seed_position Stride sds jac i j s =
     (let c = parameter_cursor s;
          s1 = s\<lparr>input_jets := (input_jets s)[c := setZero (input_jets s ! c)]\<rparr>
      in if active_parameter_count s1 < Stride
         then (if current_derivative_section s1 < length sds
               then (if sds ! current_derivative_section s1 + current_derivative_section_cursor s1 \<le> c
                     then (if jac ! i \<noteq> None
                           then Inr (s1\<lparr>input_jets :=
                                          (input_jets s1)[c := seed (active_parameter_count s1) (input_jets s1 ! c)],
                                        active_parameter_count := Suc (active_parameter_count s1),
                                        current_derivative_section_cursor :=
                                          Suc (current_derivative_section_cursor s1),
                                        parameter_cursor := Suc c\<rparr>)
                           else Inr (s1\<lparr>current_derivative_section := Suc (current_derivative_section s1),
                                        current_derivative_section_cursor := 0,
                                        parameter_cursor := Suc c\<rparr>))
                     else Inr (s1\<lparr>parameter_cursor := Suc c\<rparr>))
               else Inl OutOfRange)
         else Inr (s1\<lparr>parameter_cursor := Suc c\<rparr>))"

definition seed_pass ::
  "nat \<Rightarrow> nat list \<Rightarrow> nat list \<Rightarrow> 'a list option list \<Rightarrow> 'a::{zero,one} frame \<Rightarrow> error + 'a frame" where
  "seed_pass Stride sds sizes jac s =
     for_loop [0..<length sizes]
       (\<lambda>i. for_loop [0..<sizes ! i] (seed_position Stride sds jac i))
       (s\<lparr>active_parameter_count := 0, parameter_cursor := 0\<rparr>)"

subsection \<open>Scattering\<close>

text \<open>
  The body of the inner scatter loop (lines 257 to 272): for a seeded position every
  residual's partial in the position's lane is stored at offset
  \<^verbatim>\<open>k * parameter_block_sizes()[i] + j\<close> of block \<^verbatim>\<open>i\<close>'s buffer.
\<close>

definition store_cell :: "nat \<Rightarrow> nat \<Rightarrow> 'a \<Rightarrow> 'a frame \<Rightarrow> 'a frame" where
  "store_cell i off x s =
     s\<lparr>jacobians := (jacobians s)[i := map_option (\<lambda>buf. buf[off := x]) (jacobians s ! i)],
       writes := writes s @ [(i, off, x)]\<rparr>"

definition scatter_position ::
  "nat \<Rightarrow> nat list \<Rightarrow> nat list \<Rightarrow> nat \<Rightarrow> nat \<Rightarrow> nat \<Rightarrow> 'a frame \<Rightarrow> error + 'a frame" where
  "scatter_position Stride sds sizes nres i j s =
     (let c = parameter_cursor s
      in if active_parameter_count s < Stride
         then (if current_derivative_section s < length sds
               then (if sds ! current_derivative_section s + current_derivative_section_cursor s \<le> c
                     then (if jacobians s ! i \<noteq> None
                           then Inr ((fold (\<lambda>k. store_cell i (k * (sizes ! i) + j)
                                                   (jet_v (output_jets s ! k) ! active_parameter_count s))
                                           [0..<nres] s)
                                       \<lparr>active_parameter_count := Suc (active_parameter_count s),
                                        current_derivative_section_cursor :=
                                          Suc (current_derivative_section_cursor s),
                                        parameter_cursor := Suc c\<rparr>)
                           else Inr (s\<lparr>current_derivative_section := Suc (current_derivative_section s),
                                       current_derivative_section_cursor := 0,
                                       parameter_cursor := Suc c\<rparr>))
                     else Inr (s\<lparr>parameter_cursor := Suc c\<rparr>))
               else Inl OutOfRange)
         else Inr (s\<lparr>parameter_cursor := Suc c\<rparr>))"

definition scatter_pass ::
  "nat \<Rightarrow> nat list \<Rightarrow> nat list \<Rightarrow> nat \<Rightarrow> 'a frame \<Rightarrow> error + 'a frame" where
  "scatter_pass Stride sds sizes nres s =
     for_loop [0..<length sizes]
       (\<lambda>i. for_loop [0..<sizes ! i] (scatter_position Stride sds sizes nres i))
       (s\<lparr>active_parameter_count := 0, parameter_cursor := 0\<rparr>)"

subsection \<open>The passes\<close>

text \<open>The parameter pack handed to the jet instance: block \<open>i\<close> starts at its recorded offset.\<close>

definition jet_pack :: "nat list \<Rightarrow> nat list \<Rightarrow> 'b list \<Rightarrow> 'b list list" where
  "jet_pack offsets sizes jets = map2 (\<lambda>off n. take n (drop off jets)) offsets sizes"

definition copy_residuals :: "nat \<Rightarrow> 'a frame \<Rightarrow> 'a frame" where
  "copy_residuals nres s =
     fold (\<lambda>k s'. s'\<lparr>residuals := (residuals s')[k := jet_a (output_jets s' ! k)]\<rparr>) [0..<nres] s"

text \<open>
  The body of the loop over the passes (lines 215 to 282).  The flag of the result is
  \<open>False\<close> when the functor failed and the body returned \<^verbatim>\<open>false\<close> from \<^verbatim>\<open>Evaluate\<close>.
\<close>

definition stride_pass ::
  "'a::{zero,one} cost_function \<Rightarrow> nat \<Rightarrow> nat list \<Rightarrow> nat list \<Rightarrow> nat \<Rightarrow> nat \<Rightarrow> 'a frame
     \<Rightarrow> error + (bool \<times> 'a frame)" where
  "stride_pass cf Stride offsets sds num_strides pass s =
     (let sizes = parameter_block_sizes cf;
          nres = nat (num_residuals cf);
          initial_derivative_section = current_derivative_section s;
          initial_derivative_section_cursor = current_derivative_section_cursor s
      in case seed_pass Stride sds sizes (jacobians s) s of
           Inl e \<Rightarrow> Inl e
         | Inr s1 \<Rightarrow>
             (case dual (functor_ptr cf) (jet_pack offsets sizes (input_jets s1)) (output_jets s1) of
                (ok, out) \<Rightarrow>
                  let s2 = s1\<lparr>output_jets := out,
                              invocations := invocations s1 @ [Dual (input_jets s1) ok]\<rparr>
                  in if \<not> ok then Inr (False, s2)
                     else (case scatter_pass Stride sds sizes nres
                                  (s2\<lparr>current_derivative_section := initial_derivative_section,
                                      current_derivative_section_cursor :=
                                        initial_derivative_section_cursor\<rparr>) of
                             Inl e \<Rightarrow> Inl e
                           | Inr s3 \<Rightarrow>
                               Inr (True, if Suc pass = num_strides
                                          then copy_residuals nres s3 else s3))))"

text \<open>
  The loop over the passes (line 214): it ends with \<open>True\<close> after the last pass (line 284),
  or at the first pass that returned \<^verbatim>\<open>false\<close>.
\<close>

fun pass_loop ::
  "(nat \<Rightarrow> 's \<Rightarrow> error + (bool \<times> 's)) \<Rightarrow> nat list \<Rightarrow> 's \<Rightarrow> error + (bool \<times> 's)" where
  "pass_loop body [] s = Inr (True, s)"
| "pass_loop body (pass # rest) s =
     (case body pass s of
        Inl e \<Rightarrow> Inl e
      | Inr (ok, s') \<Rightarrow> if ok then pass_loop body rest s' else Inr (False, s'))"

section \<open>Evaluate\<close>

text \<open>The direct call of the \<^verbatim>\<open>double\<close> instance on the caller's own buffers.\<close>

definition direct ::
  "'a cost_function \<Rightarrow> 'a list list \<Rightarrow> 'a list \<Rightarrow> 'a list option list option \<Rightarrow> 'a outcome" where
  "direct cf parameters res jacs =
     (case plain (functor_ptr cf) parameters res of
        (ok, res') \<Rightarrow>
          \<lparr>returned = ok, residuals_out = res', jacobians_out = jacs,
           calls = [Plain parameters ok], cells_written = []\<rparr>)"

text \<open>
  The strided part of \<^verbatim>\<open>Evaluate\<close> (lines 203 to 284): the total parameter count is
  pushed as the last section boundary, the number of passes is computed, and the passes
  run from section 0, offset 0.
\<close>

definition sections :: "'a discovery \<Rightarrow> nat list" where
  "sections d = start_derivative_section d @ [d_parameter_cursor d]"

definition first_frame ::
  "nat \<Rightarrow> 'a::zero cost_function \<Rightarrow> 'a list \<Rightarrow> 'a list option list \<Rightarrow> 'a discovery \<Rightarrow> 'a frame" where
  "first_frame Stride cf res jac d =
     \<lparr>residuals = res, jacobians = jac,
      input_jets = d_input_jets d,
      output_jets = replicate (nat (num_residuals cf)) (zero_jet Stride),
      parameter_cursor = d_parameter_cursor d,
      current_derivative_section = 0,
      current_derivative_section_cursor = 0,
      active_parameter_count = 0,
      invocations = [], writes = []\<rparr>"

definition strided ::
  "nat \<Rightarrow> 'a::{zero,one} cost_function \<Rightarrow> 'a list \<Rightarrow> 'a list option list \<Rightarrow> 'a discovery
     \<Rightarrow> error + (bool \<times> 'a frame)" where
  "strided Stride cf res jac d =
     (let num_strides = num_strides_of (num_active_parameters d) Stride
      in pass_loop (stride_pass cf Stride (jet_parameters d) (sections d) num_strides)
           [0..<num_strides] (first_frame Stride cf res jac d))"

text \<open>
  \<^verbatim>\<open>Evaluate(parameters, residuals, jacobians)\<close> of the instantiation at \<open>Stride\<close>.  The
  argument \<open>jacs\<close> is \<open>None\<close> for a null \<^verbatim>\<open>jacobians\<close>, and else has one slot per block,
  \<open>None\<close> for a null slot.  A failed \<^verbatim>\<open>CHECK_GT\<close> ends the process: \<open>Inl CheckFailed\<close>.
\<close>

definition Evaluate ::
  "nat \<Rightarrow> 'a::{zero,one} cost_function \<Rightarrow> 'a list list \<Rightarrow> 'a list \<Rightarrow> 'a list option list option
     \<Rightarrow> error + 'a outcome" where
  "Evaluate Stride cf parameters res jacs =
     (if \<not> 0 < num_residuals cf then Inl CheckFailed
      else case jacs of
        None \<Rightarrow> Inr (direct cf parameters res jacs)
      | Some jac \<Rightarrow>
          let d = discover Stride (parameter_block_sizes cf) parameters jac
          in if num_active_parameters d = 0 then Inr (direct cf parameters res jacs)
             else (case strided Stride cf res jac d of
                     Inl e \<Rightarrow> Inl e
                   | Inr (ok, s') \<Rightarrow>
                       Inr \<lparr>returned = ok, residuals_out = residuals s',
                            jacobians_out = Some (jacobians s'),
                            calls = invocations s',
                            cells_written = map (\<lambda>(i, off, x). (i, off)) (writes s')\<rparr>))"

section \<open>Notions used in the proofs\<close>

definition positions :: "nat list \<Rightarrow> (nat \<times> nat) list" where
  "positions sizes = concat (map (\<lambda>i. map (Pair i) [0..<sizes ! i]) [0..<length sizes])"

definition cursor_step ::
  "nat \<Rightarrow> nat list \<Rightarrow> bool \<Rightarrow> nat \<Rightarrow> nat \<times> nat \<times> nat \<Rightarrow> error + (nat option \<times> nat \<times> nat \<times> nat)" where
  "cursor_step Stride sds requested c cur =
     (case cur of (sec, off, cnt) \<Rightarrow>
        if cnt < Stride
        then (if sec < length sds
              then (if sds ! sec + off \<le> c
                    then (if requested then Inr (Some cnt, sec, Suc off, Suc cnt)
                          else Inr (None, Suc sec, 0, cnt))
                    else Inr (None, sec, off, cnt))
              else Inl OutOfRange)
        else Inr (None, sec, off, cnt))"

definition cursors :: "'a frame \<Rightarrow> nat \<times> nat \<times> nat" where
  "cursors s = (current_derivative_section s, current_derivative_section_cursor s,
                active_parameter_count s)"

definition seed_frame :: "'a frame \<Rightarrow> 'a frame \<Rightarrow> bool" where
  "seed_frame s s' \<longleftrightarrow>
     residuals s' = residuals s \<and> jacobians s' = jacobians s \<and>
     output_jets s' = output_jets s \<and> invocations s' = invocations s \<and>
     writes s' = writes s \<and> map jet_a (input_jets s') = map jet_a (input_jets s)"

text \<open>The scatter loop writes only cells of blocks whose slot is not null.\<close>

definition scatter_frame :: "'a frame \<Rightarrow> 'a frame \<Rightarrow> bool" where
  "scatter_frame s s' \<longleftrightarrow>
     residuals s' = residuals s \<and> input_jets s' = input_jets s \<and>
     output_jets s' = output_jets s \<and> invocations s' = invocations s \<and>
     map (\<lambda>b. b = None) (jacobians s') = map (\<lambda>b. b = None) (jacobians s) \<and>
     (\<exists>new. writes s' = writes s @ new \<and>
            (\<forall>w\<in>set new. fst w < length (jacobians s) \<and> jacobians s ! fst w \<noteq> None))"

definition null_pattern :: "'a option list \<Rightarrow> bool list" where
  "null_pattern js = map (\<lambda>b. b = None) js"

text \<open>What one pass leaves of the frame it started from.\<close>

definition pass_frame :: "'a frame \<Rightarrow> bool \<Rightarrow> 'a frame \<Rightarrow> bool" where
  "pass_frame s ok s' \<longleftrightarrow>
     (\<exists>jets. invocations s' = invocations s @ [Dual jets ok] \<and>
             map jet_a jets = map jet_a (input_jets s)) \<and>
     map jet_a (input_jets s') = map jet_a (input_jets s) \<and>
     map (\<lambda>b. b = None) (jacobians s') = map (\<lambda>b. b = None) (jacobians s) \<and>
     (\<exists>new. writes s' = writes s @ new \<and>
            (\<forall>w\<in>set new. fst w < length (jacobians s) \<and> jacobians s ! fst w \<noteq> None)) \<and>
     (\<not> ok \<longrightarrow> residuals s' = residuals s \<and> jacobians s' = jacobians s \<and> writes s' = writes s)"

definition set_block :: "nat \<Rightarrow> 'a list \<Rightarrow> nat \<Rightarrow> 'a Jet list \<Rightarrow> 'a Jet list" where
  "set_block c p n js = fold (\<lambda>j js. js[c + j := Jet (p ! j) (jet_v (js ! (c + j)))]) [0..<n] js"

definition requested_sizes :: "nat list \<Rightarrow> 'a option list \<Rightarrow> nat \<Rightarrow> nat" where
  "requested_sizes sizes jac n = (\<Sum>i<n. if jac ! i \<noteq> None then sizes ! i else 0)"

text \<open>The state of the call after the passes in \<open>pre\<close>, all of which succeeded.\<close>

definition between_passes ::
  "nat list \<Rightarrow> 'a list option list \<Rightarrow> 'a list \<Rightarrow> nat \<Rightarrow> nat list \<Rightarrow> 'a frame \<Rightarrow> bool" where
  "between_passes sds jac res n pre t \<longleftrightarrow>
     current_derivative_section t < length sds \<and>
     map (\<lambda>b. b = None) (jacobians t) = map (\<lambda>b. b = None) jac \<and>
     (\<forall>w\<in>set (writes t). fst w < length jac \<and> jac ! fst w \<noteq> None) \<and>
     length (invocations t) = length pre \<and>
     (\<forall>c\<in>set (invocations t). \<exists>jets. c = Dual jets True) \<and>
     ((\<forall>p\<in>set pre. Suc p \<noteq> n) \<longrightarrow> residuals t = res)"

text \<open>The state of the call when a pass has returned \<^verbatim>\<open>false\<close>.\<close>

definition after_failure ::
  "'a cost_function \<Rightarrow> nat list \<Rightarrow> 'a list option list \<Rightarrow> 'a list \<Rightarrow> nat \<Rightarrow> 'a frame \<Rightarrow> bool" where
  "after_failure cf sds jac res n t \<longleftrightarrow>
     (\<exists>pack buf. \<not> fst (dual (functor_ptr cf) pack buf)) \<and>
     current_derivative_section t < length sds \<and>
     map (\<lambda>b. b = None) (jacobians t) = map (\<lambda>b. b = None) jac \<and>
     (\<forall>w\<in>set (writes t). fst w < length jac \<and> jac ! fst w \<noteq> None) \<and>
     length (invocations t) \<le> n \<and>
     (\<exists>good jets. invocations t = good @ [Dual jets False] \<and>
                  (\<forall>c\<in>set good. \<exists>jets. c = Dual jets True)) \<and>
     residuals t = res"

definition two_block_functor :: "real cost_functor" where
  "two_block_functor =
     \<lparr>plain = (\<lambda>p r. (True, r[0 := p ! 0 ! 0 * p ! 0 ! 0 + p ! 1 ! 0 * p ! 1 ! 0,
                               1 := p ! 0 ! 1 * p ! 0 ! 1 + p ! 1 ! 1 * p ! 1 ! 1])),
      dual = (\<lambda>p r. (True, r[0 := jet_add (jet_mul (p ! 0 ! 0) (p ! 0 ! 0)) (jet_mul (p ! 1 ! 0) (p ! 1 ! 0)),
                              1 := jet_add (jet_mul (p ! 0 ! 1) (p ! 0 ! 1)) (jet_mul (p ! 1 ! 1) (p ! 1 ! 1))]))\<rparr>"

definition two_block_cost :: "real cost_function" where
  "two_block_cost = \<lparr>num_residuals = 2, parameter_block_sizes = [2, 2], functor_ptr = two_block_functor\<rparr>"

text \<open>A functor that reports failure at once and leaves its output buffer alone.\<close>

definition refusing_functor :: "real cost_functor" where
  "refusing_functor = \<lparr>plain = (\<lambda>p r. (False, r)), dual = (\<lambda>p r. (False, r))\<rparr>"

definition refusing_cost :: "real cost_function" where
  "refusing_cost = \<lparr>num_residuals = 2, parameter_block_sizes = [2, 2], functor_ptr = refusing_functor\<rparr>"

definition float_ulp :: "real \<Rightarrow> real" where
  "float_ulp q = 2 powi (float_exponent q - 23)"

text \<open>
  The functor \<open>f(x) = [x[0] + x[1] + \<dots>]\<close> over all parameters of all blocks, at any jet
  width, and a cost function with one block of \<open>2^24 + 1\<close> parameters.
\<close>

definition sum_functor :: "real cost_functor" where
  "sum_functor =
     \<lparr>plain = (\<lambda>p r. (True, r[0 := sum_list (concat p)])),
      dual = (\<lambda>p r. (True, r[0 := fold (\<lambda>x acc. jet_add acc x) (concat p)
                                        (Jet 0 (replicate (length (jet_v (r ! 0))) 0))]))\<rparr>"

definition wide_block :: "real list" where
  "wide_block = replicate 16777217 0"

definition wide_cost :: "real cost_function" where
  "wide_cost = \<lparr>num_residuals = 1, parameter_block_sizes = [16777217], functor_ptr = sum_functor\<rparr>"

text \<open>
  The function contract of the functor: on a parameter pack of the declared shape and
  output buffers of the declared length, the jet instance succeeds exactly when the
  \<^verbatim>\<open>double\<close> instance does on the primal parts, and then writes all residuals, with the
  primal parts the \<^verbatim>\<open>double\<close> instance writes.
\<close>

definition consistent_functor :: "'a cost_function \<Rightarrow> bool" where
  "consistent_functor cf \<longleftrightarrow>
     (\<forall>pack buf r.
        map length pack = parameter_block_sizes cf \<and>
        length buf = nat (num_residuals cf) \<and> length r = nat (num_residuals cf) \<longrightarrow>
        fst (dual (functor_ptr cf) pack buf) = fst (plain (functor_ptr cf) (map (map jet_a) pack) r) \<and>
        (fst (dual (functor_ptr cf) pack buf) \<longrightarrow>
           length (snd (dual (functor_ptr cf) pack buf)) = nat (num_residuals cf) \<and>
           map jet_a (snd (dual (functor_ptr cf) pack buf))
             = snd (plain (functor_ptr cf) (map (map jet_a) pack) r)))"

text \<open>
  The state between the passes, for a functor that keeps the contract: the primal parts
  of the input jets are the caller's parameters, the output buffer has its declared
  length, and the residual buffer is untouched until the last pass has been completed,
  when it holds what the direct call writes.
\<close>

definition consistent_passes ::
  "'a cost_function \<Rightarrow> nat list \<Rightarrow> 'a list list \<Rightarrow> 'a list \<Rightarrow> nat \<Rightarrow> nat list \<Rightarrow> 'a frame \<Rightarrow> bool" where
  "consistent_passes cf sds parameters res n pre t \<longleftrightarrow>
     current_derivative_section t < length sds \<and>
     length (jacobians t) = length (parameter_block_sizes cf) \<and>
     map jet_a (input_jets t) = concat parameters \<and>
     length (output_jets t) = nat (num_residuals cf) \<and>
     (pre \<noteq> [] \<longrightarrow> fst (plain (functor_ptr cf) parameters res)) \<and>
     residuals t = (if n \<in> Suc ` set pre then snd (plain (functor_ptr cf) parameters res) else res)"

text \<open>Whether the flat position \<open>q\<close> belongs to a block with a non-null slot.\<close>

definition request_flags :: "nat list \<Rightarrow> 'a option list \<Rightarrow> bool list" where
  "request_flags sizes jac = map (\<lambda>(i, j). jac ! i \<noteq> None) (positions sizes)"

text \<open>The number of active positions below \<open>q\<close>.\<close>

definition rank :: "bool list \<Rightarrow> nat \<Rightarrow> nat" where
  "rank fs q = length (filter id (take q fs))"

text \<open>A position that starts a maximal run of active positions.\<close>

definition run_start :: "bool list \<Rightarrow> nat \<Rightarrow> bool" where
  "run_start fs q \<longleftrightarrow> q < length fs \<and> fs ! q \<and> (q = 0 \<or> \<not> fs ! (q - 1))"

text \<open>
  What the pass loops need of the vector of section boundaries: strictly increasing,
  the starts of all the runs of active positions, then the total number of positions.
\<close>

definition sections_ok :: "bool list \<Rightarrow> nat list \<Rightarrow> bool" where
  "sections_ok fs sds \<longleftrightarrow>
     sorted_wrt (<) sds \<and> sds \<noteq> [] \<and> last sds = length fs \<and>
     (\<forall>s\<in>set (butlast sds). run_start fs s) \<and>
     (\<forall>q. run_start fs q \<longrightarrow> q \<in> set sds)"

text \<open>
  The lane in which position \<open>p\<close> is seeded by the pass that starts after \<open>K\<close> active
  positions have been processed: the positions of rank \<open>K\<close> to \<open>K + Stride - 1\<close> are
  seeded, in this order.
\<close>

definition lane_of :: "nat \<Rightarrow> bool list \<Rightarrow> nat \<Rightarrow> nat \<Rightarrow> nat option" where
  "lane_of Stride fs K p =
     (if fs ! p \<and> K \<le> rank fs p \<and> rank fs p < K + Stride then Some (rank fs p - K) else None)"

text \<open>
  The invariant of the two cursors and the counter before position \<open>p\<close> of a pass that
  started after \<open>K\<close> processed positions.
\<close>

definition cursor_inv :: "nat \<Rightarrow> nat list \<Rightarrow> bool list \<Rightarrow> nat \<Rightarrow> nat \<Rightarrow> nat \<times> nat \<times> nat \<Rightarrow> bool" where
  "cursor_inv Stride sds fs K p cur \<longleftrightarrow>
     (case cur of (sec, off, cnt) \<Rightarrow>
        sec < length sds \<and>
        (\<forall>q. sds ! sec \<le> q \<and> q < sds ! sec + off \<longrightarrow> q < length fs \<and> fs ! q) \<and>
        rank fs (sds ! sec + off) = K + cnt \<and>
        cnt \<le> Stride \<and>
        (cnt < Stride \<longrightarrow> p \<le> sds ! sec + off) \<and>
        (\<forall>q. p \<le> q \<and> q < sds ! sec + off \<and> q < length fs \<and> fs ! q \<longrightarrow> rank fs q < K))"

definition seed_vector :: "nat \<Rightarrow> nat option \<Rightarrow> 'a::{zero,one} list" where
  "seed_vector Stride lane =
     (case lane of None \<Rightarrow> replicate Stride 0 | Some l \<Rightarrow> (replicate Stride 0)[l := 1])"

text \<open>The two cursors carried into a pass, after \<open>K\<close> active positions have been processed.\<close>

definition pass_start :: "nat list \<Rightarrow> bool list \<Rightarrow> nat \<Rightarrow> nat \<Rightarrow> nat \<Rightarrow> bool" where
  "pass_start sds fs K sec off \<longleftrightarrow>
     sec < length sds \<and>
     (\<forall>q. sds ! sec \<le> q \<and> q < sds ! sec + off \<longrightarrow> q < length fs \<and> fs ! q) \<and>
     rank fs (sds ! sec + off) = K"

text \<open>The Jacobian buffers after the logged writes, in the order of the log.\<close>

definition apply_writes :: "(nat \<times> nat \<times> 'a) list \<Rightarrow> 'a list option list \<Rightarrow> 'a list option list" where
  "apply_writes ws js = fold (\<lambda>(i, off, x) js. js[i := map_option (\<lambda>b. b[off := x]) (js ! i)]) ws js"

text \<open>
  The cells one position writes in a pass, and the cells a whole pass writes: for every
  seeded position, in the order of the positions, one cell per residual.
\<close>

definition position_cells ::
  "nat \<Rightarrow> nat list \<Rightarrow> bool list \<Rightarrow> nat \<Rightarrow> nat \<Rightarrow> 'a Jet list \<Rightarrow> nat \<Rightarrow> (nat \<times> nat \<times> 'a) list" where
  "position_cells Stride sizes fs nres K out p =
     (case lane_of Stride fs K p of
        None \<Rightarrow> []
      | Some l \<Rightarrow> map (\<lambda>k. (fst (positions sizes ! p),
                            k * sizes ! fst (positions sizes ! p) + snd (positions sizes ! p),
                            jet_v (out ! k) ! l)) [0..<nres])"

definition pass_cells ::
  "nat \<Rightarrow> nat list \<Rightarrow> bool list \<Rightarrow> nat \<Rightarrow> nat \<Rightarrow> 'a Jet list \<Rightarrow> (nat \<times> nat \<times> 'a) list" where
  "pass_cells Stride sizes fs nres K out =
     concat (map (position_cells Stride sizes fs nres K out) [0..<length fs])"

text \<open>The input jets of a pass that starts after \<open>K\<close> processed positions.\<close>

definition seeded :: "nat \<Rightarrow> bool list \<Rightarrow> 'a::{zero,one} list \<Rightarrow> nat \<Rightarrow> 'a Jet list" where
  "seeded Stride fs xs K =
     map (\<lambda>p. Jet (xs ! p) (seed_vector Stride (lane_of Stride fs K p))) [0..<length fs]"

text \<open>The number of active positions processed before pass \<open>r\<close>.\<close>

definition pass_offset :: "nat \<Rightarrow> bool list \<Rightarrow> nat \<Rightarrow> nat" where
  "pass_offset Stride fs r = min (r * Stride) (rank fs (length fs))"

text \<open>
  The state after \<open>r\<close> successful passes, in closed form: \<open>outs\<close> are the buffers of output
  jets the passes left, each pass being handed the buffer of the pass before.
\<close>

definition exact_passes ::
  "'a::{zero,one} cost_function \<Rightarrow> nat \<Rightarrow> nat list \<Rightarrow> nat list \<Rightarrow> bool list \<Rightarrow> 'a list option list
     \<Rightarrow> 'a list \<Rightarrow> 'a Jet list \<Rightarrow> nat \<Rightarrow> 'a frame \<Rightarrow> 'a Jet list list \<Rightarrow> bool" where
  "exact_passes cf Stride offsets sds fs jac xs zeros r t outs \<longleftrightarrow>
     length outs = r \<and>
     (\<forall>k<r. dual (functor_ptr cf)
              (jet_pack offsets (parameter_block_sizes cf) (seeded Stride fs xs (pass_offset Stride fs k)))
              ((zeros # outs) ! k) = (True, outs ! k)) \<and>
     output_jets t = (zeros # outs) ! r \<and>
     invocations t = map (\<lambda>k. Dual (seeded Stride fs xs (pass_offset Stride fs k)) True) [0..<r] \<and>
     writes t = concat (map (\<lambda>k. pass_cells Stride (parameter_block_sizes cf) fs (nat (num_residuals cf))
                                   (pass_offset Stride fs k) (outs ! k)) [0..<r]) \<and>
     jacobians t = apply_writes (writes t) jac \<and>
     pass_start sds fs (pass_offset Stride fs r)
       (current_derivative_section t) (current_derivative_section_cursor t) \<and>
     length (input_jets t) = length fs \<and>
     (\<forall>x\<in>set (input_jets t). length (jet_v x) = Stride) \<and>
     map jet_a (input_jets t) = xs"

text \<open>The state after pass \<open>r\<close> has returned \<^verbatim>\<open>false\<close>, the passes before it having succeeded.\<close>

definition failed_pass ::
  "'a::{zero,one} cost_function \<Rightarrow> nat \<Rightarrow> nat list \<Rightarrow> bool list \<Rightarrow> 'a list option list
     \<Rightarrow> 'a list \<Rightarrow> 'a Jet list \<Rightarrow> nat \<Rightarrow> 'a frame \<Rightarrow> 'a Jet list list \<Rightarrow> bool" where
  "failed_pass cf Stride offsets fs jac xs zeros r t outs \<longleftrightarrow>
     length outs = r \<and>
     (\<forall>k<r. dual (functor_ptr cf)
              (jet_pack offsets (parameter_block_sizes cf) (seeded Stride fs xs (pass_offset Stride fs k)))
              ((zeros # outs) ! k) = (True, outs ! k)) \<and>
     \<not> fst (dual (functor_ptr cf)
              (jet_pack offsets (parameter_block_sizes cf) (seeded Stride fs xs (pass_offset Stride fs r)))
              ((zeros # outs) ! r)) \<and>
     invocations t = map (\<lambda>k. Dual (seeded Stride fs xs (pass_offset Stride fs k)) True) [0..<r]
                       @ [Dual (seeded Stride fs xs (pass_offset Stride fs r)) False] \<and>
     writes t = concat (map (\<lambda>k. pass_cells Stride (parameter_block_sizes cf) fs (nat (num_residuals cf))
                                   (pass_offset Stride fs k) (outs ! k)) [0..<r]) \<and>
     jacobians t = apply_writes (writes t) jac"

text \<open>The cells of one position, one per residual, with the values \<open>f\<close>.\<close>

definition cell_row :: "nat list \<Rightarrow> nat \<Rightarrow> nat \<Rightarrow> (nat \<Rightarrow> 'a) \<Rightarrow> (nat \<times> nat \<times> 'a) list" where
  "cell_row sizes nres p f =
     map (\<lambda>k. (fst (positions sizes ! p),
               k * sizes ! fst (positions sizes ! p) + snd (positions sizes ! p), f k)) [0..<nres]"

text \<open>The cells of positions, without the values.\<close>

definition cell_of :: "nat list \<Rightarrow> nat \<times> nat \<Rightarrow> nat \<times> nat" where
  "cell_of sizes pk =
     (fst (positions sizes ! fst pk),
      snd pk * sizes ! fst (positions sizes ! fst pk) + snd (positions sizes ! fst pk))"

text \<open>
  The chain of the first \<open>r\<close> functor calls of a call, all successful: call \<open>k\<close> gets the
  jets seeded for pass \<open>k\<close> and the output buffer the call before it left.
\<close>

definition pass_chain ::
  "'a::{zero,one} cost_function \<Rightarrow> nat \<Rightarrow> bool list \<Rightarrow> 'a list \<Rightarrow> 'a Jet list list \<Rightarrow> nat \<Rightarrow> bool" where
  "pass_chain cf Stride fs xs outs r \<longleftrightarrow>
     length outs = r \<and>
     (\<forall>k<r. dual (functor_ptr cf)
              (jet_pack (map (\<lambda>i. sum_list (take i (parameter_block_sizes cf)))
                           [0..<length (parameter_block_sizes cf)])
                 (parameter_block_sizes cf) (seeded Stride fs xs (pass_offset Stride fs k)))
              ((replicate (nat (num_residuals cf)) (zero_jet Stride) # outs) ! k) = (True, outs ! k))"

text \<open>All the cells \<open>ns\<close> successful passes write, with their values, in the order of the writes.\<close>

definition written ::
  "nat \<Rightarrow> nat list \<Rightarrow> bool list \<Rightarrow> nat \<Rightarrow> nat \<Rightarrow> 'a Jet list list \<Rightarrow> (nat \<times> nat \<times> 'a) list" where
  "written Stride sizes fs nres ns outs =
     concat (map (\<lambda>p. cell_row sizes nres p
                        (\<lambda>k. jet_v (outs ! (rank fs p div Stride) ! k) ! (rank fs p mod Stride)))
              (filter (\<lambda>p. fs ! p \<and> rank fs p < ns * Stride) [0..<length fs]))"

text \<open>
  A cost function with empty parameter blocks: five blocks of sizes 1, 0, 0, 1 and 2, one
  residual, the sum of all parameters.
\<close>

definition gap_cost :: "real cost_function" where
  "gap_cost = \<lparr>num_residuals = 1, parameter_block_sizes = [1, 0, 0, 1, 2], functor_ptr = sum_functor\<rparr>"

text \<open>
  A functor that adds to its output instead of assigning it,
  \<^verbatim>\<open>residuals[0] += parameters[0][0]\<close>, and one that writes its output and then reports
  failure, \<^verbatim>\<open>residuals[0] = parameters[0][0]; return false\<close>; each on one block of one parameter.
\<close>

definition accumulating_functor :: "real cost_functor" where
  "accumulating_functor =
     \<lparr>plain = (\<lambda>p r. (True, r[0 := r ! 0 + p ! 0 ! 0])),
      dual = (\<lambda>p r. (True, r[0 := jet_add (r ! 0) (p ! 0 ! 0)]))\<rparr>"

definition accumulating_cost :: "real cost_function" where
  "accumulating_cost = \<lparr>num_residuals = 1, parameter_block_sizes = [1], functor_ptr = accumulating_functor\<rparr>"

definition write_then_fail_functor :: "real cost_functor" where
  "write_then_fail_functor =
     \<lparr>plain = (\<lambda>p r. (False, r[0 := p ! 0 ! 0])),
      dual = (\<lambda>p r. (False, r[0 := p ! 0 ! 0]))\<rparr>"

definition write_then_fail_cost :: "real cost_function" where
  "write_then_fail_cost =
     \<lparr>num_residuals = 1, parameter_block_sizes = [1], functor_ptr = write_then_fail_functor\<rparr>"

section \<open>Properties\<close>

lemma for_loop_append:
  "for_loop (xs @ ys) body s =
     (case for_loop xs body s of Inl e \<Rightarrow> Inl e | Inr s' \<Rightarrow> for_loop ys body s')"
  by (induction xs arbitrary: s) (auto split: sum.splits)

lemma for_loop_concat_map:
  "for_loop (concat (map f xs)) body s = for_loop xs (\<lambda>x. for_loop (f x) body) s"
  by (induction xs arbitrary: s) (auto simp: for_loop_append split: sum.splits)

lemma for_loop_map:
  "for_loop (map f xs) body s = for_loop xs (\<lambda>x. body (f x)) s"
  by (induction xs arbitrary: s) (auto split: sum.splits)

lemma for_loop_nested:
  "for_loop [0..<length sizes] (\<lambda>i. for_loop [0..<sizes ! i] (body i)) s =
   for_loop (positions sizes) (\<lambda>(i, j). body i j) s"
  unfolding positions_def for_loop_concat_map for_loop_map by simp

lemma length_positions_aux:
  "n \<le> length sizes \<Longrightarrow>
   length (concat (map (\<lambda>i. map (Pair i) [0..<sizes ! i]) [0..<n])) = sum_list (take n sizes)"
  by (induction n) (auto simp: take_Suc_conv_app_nth)

lemma length_positions: "length (positions sizes) = sum_list sizes"
  using length_positions_aux[of "length sizes" sizes] by (simp add: positions_def)

lemma for_loop_invariant:
  assumes "I 0 s"
    and "\<And>q t. q < length xs \<Longrightarrow> I q t \<Longrightarrow> \<exists>t'. body (xs ! q) t = Inr t' \<and> I (Suc q) t'"
  shows "\<exists>s'. for_loop xs body s = Inr s' \<and> I (length xs) s'"
  using assms
proof (induction xs arbitrary: s I)
  case Nil
  then show ?case by simp
next
  case (Cons x xs)
  from Cons.prems(2)[of 0 s] Cons.prems(1)
  obtain t where t: "body x s = Inr t" "I (Suc 0) t" by auto
  have "\<exists>s'. for_loop xs body t = Inr s' \<and> (\<lambda>q. I (Suc q)) (length xs) s'"
  proof (rule Cons.IH)
    show "I (Suc 0) t" by (rule t)
  next
    fix q u assume "q < length xs" "I (Suc q) u"
    then show "\<exists>t'. body (xs ! q) u = Inr t' \<and> I (Suc (Suc q)) t'"
      using Cons.prems(2)[of "Suc q" u] by simp
  qed
  with t show ?case by simp
qed

lemma fold_upt_invariant:
  assumes "P 0 s" and "\<And>i t. i < n \<Longrightarrow> P i t \<Longrightarrow> P (Suc i) (f i t)"
  shows "P n (fold f [0..<n] s)"
  using assms by (induction n) auto

lemma list_update_outside: "\<not> i < length xs \<Longrightarrow> xs[i := x] = xs"
  by (simp add: list_update_beyond)

lemma seed_position_cursor_step:
  "seed_position Stride sds jac i j s =
     (case cursor_step Stride sds (jac ! i \<noteq> None) (parameter_cursor s) (cursors s) of
        Inl e \<Rightarrow> Inl e
      | Inr (lane, sec, off, cnt) \<Rightarrow>
          Inr (s\<lparr>input_jets := (input_jets s)[parameter_cursor s :=
                    (case lane of None \<Rightarrow> setZero (input_jets s ! parameter_cursor s)
                     | Some l \<Rightarrow> seed l (setZero (input_jets s ! parameter_cursor s)))],
                 current_derivative_section := sec,
                 current_derivative_section_cursor := off,
                 active_parameter_count := cnt,
                 parameter_cursor := Suc (parameter_cursor s)\<rparr>))"
  by (cases "parameter_cursor s < length (input_jets s)")
     (simp_all add: seed_position_def cursor_step_def cursors_def Let_def list_update_outside)

lemma fold_store_cell:
  "fold (\<lambda>k. store_cell i (f k) (g k)) ks s =
     s\<lparr>jacobians := (jacobians s)[i := map_option (fold (\<lambda>k b. b[f k := g k]) ks) (jacobians s ! i)],
       writes := writes s @ map (\<lambda>k. (i, f k, g k)) ks\<rparr>"
proof (induction ks arbitrary: s)
  case Nil
  show ?case by (simp add: option.map_ident)
next
  case (Cons k ks)
  have "fold (\<lambda>k. store_cell i (f k) (g k)) (k # ks) s =
        fold (\<lambda>k. store_cell i (f k) (g k)) ks (store_cell i (f k) (g k) s)"
    by simp
  also have "\<dots> = (store_cell i (f k) (g k) s)
      \<lparr>jacobians := (jacobians (store_cell i (f k) (g k) s))
         [i := map_option (fold (\<lambda>k b. b[f k := g k]) ks) (jacobians (store_cell i (f k) (g k) s) ! i)],
       writes := writes (store_cell i (f k) (g k) s) @ map (\<lambda>k. (i, f k, g k)) ks\<rparr>"
    by (rule Cons)
  also have "\<dots> = s\<lparr>jacobians := (jacobians s)
         [i := map_option (fold (\<lambda>k b. b[f k := g k]) (k # ks)) (jacobians s ! i)],
       writes := writes s @ map (\<lambda>k. (i, f k, g k)) (k # ks)\<rparr>"
    by (cases "i < length (jacobians s)")
       (simp_all add: store_cell_def option.map_comp comp_def list_update_outside)
  finally show ?case .
qed

lemma scatter_position_cursor_step:
  "scatter_position Stride sds sizes nres i j s =
     (case cursor_step Stride sds (jacobians s ! i \<noteq> None) (parameter_cursor s) (cursors s) of
        Inl e \<Rightarrow> Inl e
      | Inr (lane, sec, off, cnt) \<Rightarrow>
          Inr ((case lane of None \<Rightarrow> s
                | Some l \<Rightarrow> fold (\<lambda>k. store_cell i (k * (sizes ! i) + j)
                                          (jet_v (output_jets s ! k) ! l)) [0..<nres] s)
                 \<lparr>current_derivative_section := sec,
                  current_derivative_section_cursor := off,
                  active_parameter_count := cnt,
                  parameter_cursor := Suc (parameter_cursor s)\<rparr>))"
  by (simp add: scatter_position_def cursor_step_def cursors_def Let_def fold_store_cell)

lemma cursor_step_in_range:
  assumes "sds \<noteq> []" "last sds = N" "c < N" "fst cur < length sds"
  shows "\<exists>lane cur'. cursor_step Stride sds requested c cur = Inr (lane, cur') \<and> fst cur' < length sds"
proof -
  obtain sec off cnt where cur: "cur = (sec, off, cnt)" by (cases cur)
  have "Suc sec < length sds" if "sds ! sec + off \<le> c"
  proof (rule ccontr)
    assume "\<not> Suc sec < length sds"
    with assms(4) cur have "sec = length sds - 1" by simp
    with assms(1,2) have "sds ! sec = N" by (simp add: last_conv_nth)
    with that assms(3) show False by simp
  qed
  with assms(4) cur show ?thesis by (auto simp: cursor_step_def)
qed

lemma for_loop_preserves:
  assumes "for_loop xs body s = Inr s'" "P s"
    and "\<And>x t t'. body x t = Inr t' \<Longrightarrow> P t \<Longrightarrow> P t'"
  shows "P s'"
  using assms(1,2)
proof (induction xs arbitrary: s)
  case Nil
  then show ?case by simp
next
  case (Cons x xs)
  then show ?case using assms(3) by (auto split: sum.splits)
qed

lemma jet_a_setZero [simp]: "jet_a (setZero x) = jet_a x"
  by (simp add: setZero_def)

lemma jet_a_seed [simp]: "jet_a (seed k x) = jet_a x"
  by (simp add: seed_def)

lemma map_jet_a_update:
  "jet_a y = jet_a (xs ! c) \<Longrightarrow> map jet_a (xs[c := y]) = map jet_a xs"
  by (cases "c < length xs") (simp_all add: map_update list_update_outside list_update_same_conv)

lemma seed_position_frame:
  "seed_position Stride sds jac i j t = Inr t' \<Longrightarrow> seed_frame s t \<Longrightarrow> seed_frame s t'"
proof -
  assume a: "seed_position Stride sds jac i j t = Inr t'" and f: "seed_frame s t"
  from a obtain lane sec off cnt where
    t': "t' = t\<lparr>input_jets := (input_jets t)[parameter_cursor t :=
                    (case lane of None \<Rightarrow> setZero (input_jets t ! parameter_cursor t)
                     | Some l \<Rightarrow> seed l (setZero (input_jets t ! parameter_cursor t)))],
                 current_derivative_section := sec,
                 current_derivative_section_cursor := off,
                 active_parameter_count := cnt,
                 parameter_cursor := Suc (parameter_cursor t)\<rparr>"
    unfolding seed_position_cursor_step by (auto split: sum.splits)
  have "map jet_a (input_jets t') = map jet_a (input_jets t)"
    unfolding t' by (cases lane) (simp_all add: map_jet_a_update)
  with f show "seed_frame s t'"
    unfolding seed_frame_def t' by simp
qed

lemma seed_pass_frame:
  assumes "seed_pass Stride sds sizes jac s = Inr s'"
  shows "seed_frame s s'"
proof -
  let ?s0 = "s\<lparr>active_parameter_count := 0, parameter_cursor := 0\<rparr>"
  have 0: "seed_frame s ?s0" by (simp add: seed_frame_def)
  from assms have "for_loop (positions sizes) (\<lambda>(i, j). seed_position Stride sds jac i j) ?s0 = Inr s'"
    by (simp add: seed_pass_def for_loop_nested)
  then show ?thesis
    by (rule for_loop_preserves[where P = "seed_frame s"]) (use 0 in \<open>auto dest: seed_position_frame\<close>)
qed

lemma scatter_frame_refl: "scatter_frame s s"
  by (simp add: scatter_frame_def)

lemma null_pattern_update:
  "map (\<lambda>b. b = None) (js[i := map_option h (js ! i)]) = map (\<lambda>b. b = None) js"
  by (cases "i < length js") (simp_all add: map_update list_update_outside list_update_same_conv)

lemma null_pattern_nth:
  "map (\<lambda>b. b = None) js' = map (\<lambda>b. b = None) js \<Longrightarrow> i < length js \<Longrightarrow> (js' ! i = None) = (js ! i = None)"
proof -
  assume a: "map (\<lambda>b. b = None) js' = map (\<lambda>b. b = None) js" and i: "i < length js"
  from a have l: "length js' = length js" by (metis length_map)
  from a have "map (\<lambda>b. b = None) js' ! i = map (\<lambda>b. b = None) js ! i" by simp
  with i l show ?thesis by simp
qed

lemma positions_mem:
  "(i, j) \<in> set (positions sizes) \<Longrightarrow> i < length sizes \<and> j < sizes ! i"
  by (auto simp: positions_def)

lemma for_loop_preserves_mem:
  assumes "for_loop xs body s = Inr s'" "P s"
    and "\<And>x t t'. x \<in> set xs \<Longrightarrow> body x t = Inr t' \<Longrightarrow> P t \<Longrightarrow> P t'"
  shows "P s'"
  using assms
proof (induction xs arbitrary: s)
  case Nil
  then show ?case by simp
next
  case (Cons x xs)
  from Cons.prems(1) obtain t where t: "body x s = Inr t" "for_loop xs body t = Inr s'"
    by (auto split: sum.splits)
  have Pt: "P t" using Cons.prems(3)[of x s t] t(1) Cons.prems(2) by simp
  show ?case
  proof (rule Cons.IH[OF t(2) Pt])
    fix y u u' assume "y \<in> set xs" "body y u = Inr u'" "P u"
    then show "P u'" using Cons.prems(3)[of y u u'] by simp
  qed
qed

lemma scatter_position_frame:
  assumes a: "scatter_position Stride sds sizes nres i j t = Inr t'"
    and f: "scatter_frame s t" and i: "i < length (jacobians s)"
  shows "scatter_frame s t'"
proof -
  from a obtain lane sec off cnt where
    t': "t' = (case lane of None \<Rightarrow> t
                | Some l \<Rightarrow> fold (\<lambda>k. store_cell i (k * (sizes ! i) + j)
                                          (jet_v (output_jets t ! k) ! l)) [0..<nres] t)
                 \<lparr>current_derivative_section := sec,
                  current_derivative_section_cursor := off,
                  active_parameter_count := cnt,
                  parameter_cursor := Suc (parameter_cursor t)\<rparr>"
    and step: "cursor_step Stride sds (jacobians t ! i \<noteq> None) (parameter_cursor t) (cursors t)
                 = Inr (lane, sec, off, cnt)"
    unfolding scatter_position_cursor_step by (auto split: sum.splits)
  show ?thesis
  proof (cases lane)
    case None
    with f show ?thesis unfolding t' scatter_frame_def by simp
  next
    case (Some l)
    with step have "jacobians t ! i \<noteq> None"
      by (auto simp: cursor_step_def split: prod.splits if_splits)
    moreover from f have "map (\<lambda>b. b = None) (jacobians t) = map (\<lambda>b. b = None) (jacobians s)"
      by (simp add: scatter_frame_def)
    ultimately have req: "jacobians s ! i \<noteq> None"
      using null_pattern_nth[OF _ i, of "jacobians t"] by simp
    from f obtain new where new: "writes t = writes s @ new" "\<forall>w\<in>set new. fst w < length (jacobians s) \<and> jacobians s ! fst w \<noteq> None"
      by (auto simp: scatter_frame_def)
    have "writes t' = writes s @ (new @ map (\<lambda>k. (i, k * (sizes ! i) + j, jet_v (output_jets t ! k) ! l)) [0..<nres])"
      unfolding t' Some by (simp add: fold_store_cell new)
    moreover have "\<forall>w\<in>set (new @ map (\<lambda>k. (i, k * (sizes ! i) + j, jet_v (output_jets t ! k) ! l)) [0..<nres]).
                     fst w < length (jacobians s) \<and> jacobians s ! fst w \<noteq> None"
      using new(2) req i by auto
    ultimately have w: "\<exists>new. writes t' = writes s @ new \<and>
        (\<forall>w\<in>set new. fst w < length (jacobians s) \<and> jacobians s ! fst w \<noteq> None)"
      by blast
    have "residuals t' = residuals s" "input_jets t' = input_jets s" "output_jets t' = output_jets s"
      "invocations t' = invocations s"
      "map (\<lambda>b. b = None) (jacobians t') = map (\<lambda>b. b = None) (jacobians s)"
      using f unfolding t' Some scatter_frame_def
      by (simp_all add: fold_store_cell null_pattern_update)
    with w show ?thesis unfolding scatter_frame_def by simp
  qed
qed

lemma scatter_pass_frame:
  assumes "scatter_pass Stride sds sizes nres s = Inr s'" "length (jacobians s) = length sizes"
  shows "scatter_frame s s'"
proof -
  let ?s0 = "s\<lparr>active_parameter_count := 0, parameter_cursor := 0\<rparr>"
  have 0: "scatter_frame s ?s0" by (simp add: scatter_frame_def)
  from assms have "for_loop (positions sizes) (\<lambda>(i, j). scatter_position Stride sds sizes nres i j) ?s0 = Inr s'"
    by (simp add: scatter_pass_def for_loop_nested)
  then show ?thesis
  proof (rule for_loop_preserves_mem[where P = "scatter_frame s"])
    show "scatter_frame s ?s0" by (rule 0)
  next
    fix x t t'
    assume "x \<in> set (positions sizes)" "(case x of (i, j) \<Rightarrow> scatter_position Stride sds sizes nres i j) t = Inr t'"
      "scatter_frame s t"
    then show "scatter_frame s t'"
      using scatter_position_frame[of Stride sds sizes nres "fst x" "snd x" t t' s] positions_mem[of "fst x" "snd x" sizes] assms(2)
      by (simp add: case_prod_beta)
  qed
qed

subsection \<open>The section index stays inside the bookkeeping vector\<close>

lemma seed_pass_in_range:
  fixes s :: "'a::{zero,one} frame"
  assumes "sds \<noteq> []" "last sds = sum_list sizes" "current_derivative_section s < length sds"
  shows "\<exists>s'. seed_pass Stride sds sizes jac s = Inr s' \<and> current_derivative_section s' < length sds"
proof -
  let ?s0 = "s\<lparr>active_parameter_count := 0, parameter_cursor := 0\<rparr>"
  let ?I = "\<lambda>q (t::'a frame). parameter_cursor t = q \<and> current_derivative_section t < length sds"
  have "\<exists>s'. for_loop (positions sizes) (\<lambda>(i, j). seed_position Stride sds jac i j) ?s0 = Inr s'
          \<and> ?I (length (positions sizes)) s'"
  proof (rule for_loop_invariant)
    show "?I 0 ?s0" using assms(3) by simp
  next
    fix q t
    assume q: "q < length (positions sizes)" and I: "?I q t"
    obtain i j where ij: "positions sizes ! q = (i, j)" by (cases "positions sizes ! q")
    from q have "q < sum_list sizes" by (simp add: length_positions)
    with I cursor_step_in_range[OF assms(1,2), of "parameter_cursor t" "cursors t" Stride "jac ! i \<noteq> None"]
    obtain lane cur' where "cursor_step Stride sds (jac ! i \<noteq> None) (parameter_cursor t) (cursors t) = Inr (lane, cur')"
      "fst cur' < length sds"
      by (auto simp: cursors_def)
    then show "\<exists>t'. (case positions sizes ! q of (i, j) \<Rightarrow> seed_position Stride sds jac i j) t = Inr t' \<and> ?I (Suc q) t'"
      using I by (cases cur') (simp add: ij seed_position_cursor_step)
  qed
  then show ?thesis unfolding seed_pass_def for_loop_nested by blast
qed

lemma scatter_pass_in_range:
  fixes s :: "'a frame"
  assumes "sds \<noteq> []" "last sds = sum_list sizes" "current_derivative_section s < length sds"
  shows "\<exists>s'. scatter_pass Stride sds sizes nres s = Inr s' \<and> current_derivative_section s' < length sds"
proof -
  let ?s0 = "s\<lparr>active_parameter_count := 0, parameter_cursor := 0\<rparr>"
  let ?I = "\<lambda>q (t::'a frame). parameter_cursor t = q \<and> current_derivative_section t < length sds"
  have "\<exists>s'. for_loop (positions sizes) (\<lambda>(i, j). scatter_position Stride sds sizes nres i j) ?s0 = Inr s'
          \<and> ?I (length (positions sizes)) s'"
  proof (rule for_loop_invariant)
    show "?I 0 ?s0" using assms(3) by simp
  next
    fix q t
    assume q: "q < length (positions sizes)" and I: "?I q t"
    obtain i j where ij: "positions sizes ! q = (i, j)" by (cases "positions sizes ! q")
    from q have "q < sum_list sizes" by (simp add: length_positions)
    with I cursor_step_in_range[OF assms(1,2), of "parameter_cursor t" "cursors t" Stride "jacobians t ! i \<noteq> None"]
    obtain lane cur' where "cursor_step Stride sds (jacobians t ! i \<noteq> None) (parameter_cursor t) (cursors t) = Inr (lane, cur')"
      "fst cur' < length sds"
      by (auto simp: cursors_def)
    then show "\<exists>t'. (case positions sizes ! q of (i, j) \<Rightarrow> scatter_position Stride sds sizes nres i j) t = Inr t' \<and> ?I (Suc q) t'"
      using I by (cases cur') (simp add: ij scatter_position_cursor_step)
  qed
  then show ?thesis unfolding scatter_pass_def for_loop_nested by blast
qed

lemma copy_residuals_eq:
  "copy_residuals nres s =
     s\<lparr>residuals := fold (\<lambda>k r. r[k := jet_a (output_jets s ! k)]) [0..<nres] (residuals s)\<rparr>"
proof -
  have "fold (\<lambda>k s'. s'\<lparr>residuals := (residuals s')[k := jet_a (output_jets s' ! k)]\<rparr>) ks s =
        s\<lparr>residuals := fold (\<lambda>k r. r[k := jet_a (output_jets s ! k)]) ks (residuals s)\<rparr>" for ks
    by (induction ks arbitrary: s) simp_all
  then show ?thesis by (simp add: copy_residuals_def)
qed

lemma pass_loop_rule:
  assumes "I [] s"
    and "\<And>pre p post t. ps = pre @ p # post \<Longrightarrow> I pre t \<Longrightarrow>
           \<exists>b t'. body p t = Inr (b, t') \<and> (if b then I (pre @ [p]) t' else F t')"
  shows "\<exists>ok s'. pass_loop body ps s = Inr (ok, s') \<and> (if ok then I ps s' else F s')"
  using assms
proof (induction ps arbitrary: s I)
  case Nil
  then show ?case by auto
next
  case (Cons p ps)
  have "\<exists>b t'. body p s = Inr (b, t') \<and> (if b then I ([] @ [p]) t' else F t')"
    by (rule Cons.prems(2)[of "[]" p ps s]) (simp_all add: Cons.prems(1))
  then obtain b t where t: "body p s = Inr (b, t)" "if b then I [p] t else F t"
    unfolding append_Nil by blast
  show ?case
  proof (cases b)
    case False
    with t show ?thesis by auto
  next
    case True
    have "\<exists>ok s'. pass_loop body ps t = Inr (ok, s') \<and> (if ok then (\<lambda>pre. I (p # pre)) ps s' else F s')"
    proof (rule Cons.IH)
      show "I [p] t" using t True by simp
    next
      fix pre q post u
      assume "ps = pre @ q # post" "I (p # pre) u"
      then have "\<exists>b t'. body q u = Inr (b, t') \<and> (if b then I ((p # pre) @ [q]) t' else F t')"
        by (intro Cons.prems(2)[of "p # pre" q post u]) simp_all
      then show "\<exists>b t'. body q u = Inr (b, t') \<and> (if b then I (p # pre @ [q]) t' else F t')"
        unfolding append_Cons .
    qed
    with t True show ?thesis by auto
  qed
qed

lemma stride_pass_total:
  fixes s :: "'a::{zero,one} frame"
  assumes sds: "sds \<noteq> []" "last sds = sum_list (parameter_block_sizes cf)"
    and sec: "current_derivative_section s < length sds"
    and len: "length (jacobians s) = length (parameter_block_sizes cf)"
  shows "\<exists>ok s'. stride_pass cf Stride offsets sds n pass s = Inr (ok, s') \<and>
           current_derivative_section s' < length sds \<and>
           pass_frame s ok s' \<and> (Suc pass \<noteq> n \<longrightarrow> residuals s' = residuals s) \<and>
           (ok \<and> Suc pass = n \<longrightarrow>
              residuals s' = fold (\<lambda>k r. r[k := jet_a (output_jets s' ! k)])
                                  [0..<nat (num_residuals cf)] (residuals s)) \<and>
           (\<exists>jets. invocations s' = invocations s @ [Dual jets ok] \<and>
                   map jet_a jets = map jet_a (input_jets s) \<and>
                   dual (functor_ptr cf) (jet_pack offsets (parameter_block_sizes cf) jets) (output_jets s)
                     = (ok, output_jets s'))"
proof -
  let ?sizes = "parameter_block_sizes cf"
  let ?nres = "nat (num_residuals cf)"
  from seed_pass_in_range[OF sds sec, of Stride "jacobians s"]
  obtain s1 where s1: "seed_pass Stride sds ?sizes (jacobians s) s = Inr s1"
    and sec1: "current_derivative_section s1 < length sds" by blast
  have f1: "seed_frame s s1" by (rule seed_pass_frame[OF s1])
  obtain ok out where call: "dual (functor_ptr cf) (jet_pack offsets ?sizes (input_jets s1)) (output_jets s1) = (ok, out)"
    by (cases "dual (functor_ptr cf) (jet_pack offsets ?sizes (input_jets s1)) (output_jets s1)")
  define s2 where "s2 = s1\<lparr>output_jets := out, invocations := invocations s1 @ [Dual (input_jets s1) ok]\<rparr>"
  show ?thesis
  proof (cases ok)
    case False
    have "stride_pass cf Stride offsets sds n pass s = Inr (False, s2)"
      by (simp add: stride_pass_def Let_def s1 call s2_def False)
    moreover have "pass_frame s False s2"
      using f1 by (simp add: pass_frame_def seed_frame_def s2_def False)
    moreover have "residuals s2 = residuals s" "current_derivative_section s2 < length sds"
      using f1 sec1 by (simp_all add: seed_frame_def s2_def)
    moreover have "\<exists>jets. invocations s2 = invocations s @ [Dual jets ok] \<and>
                   map jet_a jets = map jet_a (input_jets s) \<and>
                   dual (functor_ptr cf) (jet_pack offsets ?sizes jets) (output_jets s) = (ok, output_jets s2)"
      using f1 call by (simp add: seed_frame_def s2_def)
    ultimately show ?thesis using False
      by (intro exI[of _ False] exI[of _ s2] conjI) simp_all
  next
    case True
    define s2r where "s2r = s2\<lparr>current_derivative_section := current_derivative_section s,
        current_derivative_section_cursor := current_derivative_section_cursor s\<rparr>"
    have "current_derivative_section s2r < length sds" using sec by (simp add: s2r_def)
    from scatter_pass_in_range[OF sds this, of Stride ?nres]
    obtain s3 where s3: "scatter_pass Stride sds ?sizes ?nres s2r = Inr s3"
      and sec3: "current_derivative_section s3 < length sds" by blast
    have "length (jacobians s2r) = length ?sizes"
      using f1 len by (simp add: s2r_def s2_def seed_frame_def)
    from scatter_pass_frame[OF s3 this] have f3: "scatter_frame s2r s3" .
    define s4 where "s4 = (if Suc pass = n then copy_residuals ?nres s3 else s3)"
    have s3': "scatter_pass Stride sds ?sizes ?nres
                 (s1\<lparr>output_jets := out, invocations := invocations s1 @ [Dual (input_jets s1) True],
                     current_derivative_section := current_derivative_section s,
                     current_derivative_section_cursor := current_derivative_section_cursor s\<rparr>) = Inr s3"
      using s3 by (simp add: s2r_def s2_def True)
    have run: "stride_pass cf Stride offsets sds n pass s = Inr (True, s4)"
      by (simp add: stride_pass_def Let_def s1 call True s3' s4_def)
    have "pass_frame s True s4"
      using f1 f3 True unfolding pass_frame_def seed_frame_def scatter_frame_def s4_def s2r_def s2_def
      by (simp add: copy_residuals_eq)
    moreover have "current_derivative_section s4 < length sds"
      using sec3 by (simp add: s4_def copy_residuals_eq)
    moreover have "Suc pass \<noteq> n \<longrightarrow> residuals s4 = residuals s"
      using f1 f3 by (simp add: s4_def scatter_frame_def seed_frame_def s2r_def s2_def)
    moreover have "Suc pass = n \<longrightarrow>
              residuals s4 = fold (\<lambda>k r. r[k := jet_a (output_jets s4 ! k)]) [0..<?nres] (residuals s)"
      using f1 f3 by (simp add: s4_def scatter_frame_def seed_frame_def s2r_def s2_def copy_residuals_eq)
    moreover have "\<exists>jets. invocations s4 = invocations s @ [Dual jets ok] \<and>
                   map jet_a jets = map jet_a (input_jets s) \<and>
                   dual (functor_ptr cf) (jet_pack offsets ?sizes jets) (output_jets s) = (ok, output_jets s4)"
      using f1 f3 call by (simp add: s4_def scatter_frame_def seed_frame_def s2r_def s2_def copy_residuals_eq)
    ultimately show ?thesis using run True
      by (intro exI[of _ True] exI[of _ s4] conjI) simp_all
  qed
qed

subsection \<open>What the discovery loop computes\<close>

lemma length_set_block [simp]: "length (set_block c p n js) = length js"
  by (induction n) (simp_all add: set_block_def)

lemma nth_set_block:
  "q < length js \<Longrightarrow>
   set_block c p n js ! q = (if c \<le> q \<and> q < c + n then Jet (p ! (q - c)) (jet_v (js ! q)) else js ! q)"
proof (induction n)
  case 0
  then show ?case by (auto simp: set_block_def)
next
  case (Suc n)
  have unfold: "set_block c p (Suc n) js =
        (set_block c p n js)[c + n := Jet (p ! n) (jet_v (set_block c p n js ! (c + n)))]"
    by (simp add: set_block_def)
  show ?case
  proof (cases "q = c + n")
    case True
    with Suc show ?thesis unfolding unfold by simp
  next
    case False
    with Suc show ?thesis unfolding unfold by (simp add: less_Suc_eq)
  qed
qed

lemma discover_inner:
  "fold (\<lambda>j d'. d'\<lparr>d_input_jets :=
                      (d_input_jets d')[d_parameter_cursor d' :=
                         Jet (p ! j) (jet_v (d_input_jets d' ! d_parameter_cursor d'))],
                    d_parameter_cursor := Suc (d_parameter_cursor d')\<rparr>) [0..<n] d =
   d\<lparr>d_input_jets := set_block (d_parameter_cursor d) p n (d_input_jets d),
     d_parameter_cursor := d_parameter_cursor d + n\<rparr>"
  by (induction n) (simp_all add: set_block_def)

lemma discover_block_eq:
  "discover_block sizes parameters jac i d =
     d\<lparr>d_input_jets := set_block (d_parameter_cursor d) (parameters ! i) (sizes ! i) (d_input_jets d),
       jet_parameters := jet_parameters d @ [d_parameter_cursor d],
       num_active_parameters := num_active_parameters d + (if jac ! i \<noteq> None then sizes ! i else 0),
       start_derivative_section :=
         start_derivative_section d @
           (if jac ! i \<noteq> None \<and> \<not> in_derivative_section d then [d_parameter_cursor d] else []),
       in_derivative_section := (jac ! i \<noteq> None),
       d_parameter_cursor := d_parameter_cursor d + sizes ! i\<rparr>"
  by (simp add: discover_block_def Let_def discover_inner)

lemma discover_counts:
  fixes parameters :: "'a::zero list list" and Stride sizes jac
  defines "d \<equiv> discover Stride sizes parameters jac"
  shows "d_parameter_cursor d = sum_list sizes"
    and "num_active_parameters d = requested_sizes sizes jac (length sizes)"
    and "jet_parameters d = map (\<lambda>i. sum_list (take i sizes)) [0..<length sizes]"
    and "length (d_input_jets d) = sum_list sizes"
proof -
  let ?P = "\<lambda>n (d::'a discovery). d_parameter_cursor d = sum_list (take n sizes) \<and>
                 num_active_parameters d = requested_sizes sizes jac n \<and>
                 jet_parameters d = map (\<lambda>i. sum_list (take i sizes)) [0..<n] \<and>
                 length (d_input_jets d) = sum_list sizes"
  have "?P (length sizes) d"
    unfolding d_def discover_def
  proof (rule fold_upt_invariant[where P = ?P])
    show "?P 0 \<lparr>d_input_jets = replicate (sum_list sizes) (zero_jet Stride), jet_parameters = [],
             num_active_parameters = 0, start_derivative_section = [],
             in_derivative_section = False, d_parameter_cursor = 0\<rparr>"
      by (simp add: requested_sizes_def)
  next
    fix i t assume "i < length sizes" "?P i t"
    then show "?P (Suc i) (discover_block sizes parameters jac i t)"
      by (simp add: discover_block_eq take_Suc_conv_app_nth requested_sizes_def)
  qed
  then show "d_parameter_cursor d = sum_list sizes"
    and "num_active_parameters d = requested_sizes sizes jac (length sizes)"
    and "jet_parameters d = map (\<lambda>i. sum_list (take i sizes)) [0..<length sizes]"
    and "length (d_input_jets d) = sum_list sizes"
    by simp_all
qed

lemma requested_sizes_zero_iff:
  "requested_sizes sizes jac n = 0 \<longleftrightarrow> (\<forall>i<n. jac ! i \<noteq> None \<longrightarrow> sizes ! i = 0)"
  by (auto simp: requested_sizes_def)

lemma upt_split:
  assumes "[0..<n] = pre @ p # post"
  shows "pre = [0..<p]" and "p < n" and "post = [Suc p..<n]"
proof -
  have len: "length pre < n"
    using arg_cong[OF assms, of length] by simp
  have "[0..<n] ! length pre = p" unfolding assms by simp
  with len have p: "length pre = p" by simp
  with len show "p < n" by simp
  have "take p [0..<n] = pre" unfolding assms using p by simp
  then show "pre = [0..<p]" using \<open>p < n\<close> by (simp add: take_upt)
  have "drop (Suc p) [0..<n] = post" unfolding assms using p by simp
  then show "post = [Suc p..<n]" by (simp add: drop_upt)
qed

lemma map_eq_length: "map f xs = map g ys \<Longrightarrow> length xs = length ys"
  by (metis length_map)

lemma stride_pass_between:
  fixes t :: "'a::{zero,one} frame"
  assumes sds: "sds \<noteq> []" "last sds = sum_list (parameter_block_sizes cf)"
    and len: "length jac = length (parameter_block_sizes cf)"
    and split: "[0..<n] = pre @ p # post"
    and inv: "between_passes sds jac res n pre t"
  shows "\<exists>b t'. stride_pass cf Stride offsets sds n p t = Inr (b, t') \<and>
           (if b then between_passes sds jac res n (pre @ [p]) t' else after_failure cf sds jac res n t')"
proof -
  note sp = upt_split[OF split]
  from inv have sec: "current_derivative_section t < length sds"
    and pat: "map (\<lambda>b. b = None) (jacobians t) = map (\<lambda>b. b = None) jac"
    and wr: "\<forall>w\<in>set (writes t). fst w < length jac \<and> jac ! fst w \<noteq> None"
    and calls: "length (invocations t) = length pre" "\<forall>c\<in>set (invocations t). \<exists>jets. c = Dual jets True"
    and res0: "(\<forall>p\<in>set pre. Suc p \<noteq> n) \<longrightarrow> residuals t = res"
    by (simp_all add: between_passes_def)
  have lenj: "length (jacobians t) = length jac" by (rule map_eq_length[OF pat])
  have res: "residuals t = res" using res0 sp by simp
  from stride_pass_total[OF sds sec, of Stride offsets n p] lenj len
  obtain b t' where run: "stride_pass cf Stride offsets sds n p t = Inr (b, t')"
    and sec': "current_derivative_section t' < length sds"
    and fr: "pass_frame t b t'"
    and keep: "Suc p \<noteq> n \<longrightarrow> residuals t' = residuals t"
    and call: "\<exists>jets. dual (functor_ptr cf) (jet_pack offsets (parameter_block_sizes cf) jets) (output_jets t)
                 = (b, output_jets t')"
    by auto
  from fr have pat': "map (\<lambda>b. b = None) (jacobians t') = map (\<lambda>b. b = None) jac"
    using pat by (simp add: pass_frame_def)
  from fr obtain new where new: "writes t' = writes t @ new"
    "\<forall>w\<in>set new. fst w < length (jacobians t) \<and> jacobians t ! fst w \<noteq> None"
    by (auto simp: pass_frame_def)
  have wr': "\<forall>w\<in>set (writes t'). fst w < length jac \<and> jac ! fst w \<noteq> None"
  proof
    fix w assume "w \<in> set (writes t')"
    then consider "w \<in> set (writes t)" | "w \<in> set new" using new(1) by auto
    then show "fst w < length jac \<and> jac ! fst w \<noteq> None"
    proof cases
      case 1
      with wr show ?thesis by simp
    next
      case 2
      with new(2) have w: "fst w < length (jacobians t)" "jacobians t ! fst w \<noteq> None" by auto
      with lenj have "fst w < length jac" by simp
      with null_pattern_nth[OF pat this] w show ?thesis by simp
    qed
  qed
  from fr obtain jets where jets: "invocations t' = invocations t @ [Dual jets b]"
    by (auto simp: pass_frame_def)
  from call have ev: "\<not> b \<longrightarrow> (\<exists>pack buf. \<not> fst (dual (functor_ptr cf) pack buf))"
    by (metis fst_conv)
  show ?thesis
  proof (cases b)
    case True
    have "between_passes sds jac res n (pre @ [p]) t'"
      unfolding between_passes_def
      using sec' pat' wr' jets calls True keep res by auto
    with run True show ?thesis by auto
  next
    case False
    with fr have "residuals t' = residuals t" by (simp add: pass_frame_def)
    moreover have "length (invocations t') \<le> n" using jets calls(1) sp by simp
    ultimately have "after_failure cf sds jac res n t'"
      unfolding after_failure_def using ev sec' pat' wr' jets calls(2) False res by auto
    with run False show ?thesis by auto
  qed
qed

lemma sections_last:
  fixes parameters :: "'a::zero list list"
  shows "sections (discover Stride sizes parameters jac) \<noteq> []"
    and "last (sections (discover Stride sizes parameters jac)) = sum_list sizes"
  by (simp_all add: sections_def discover_counts)

lemma strided_outcome:
  fixes cf :: "'a::{zero,one} cost_function" and parameters Stride
  assumes len: "length jac = length (parameter_block_sizes cf)"
  defines "d \<equiv> discover Stride (parameter_block_sizes cf) parameters jac"
  defines "n \<equiv> num_strides_of (num_active_parameters d) Stride"
  shows "\<exists>ok s'. strided Stride cf res jac d = Inr (ok, s') \<and>
           (if ok then between_passes (sections d) jac res n [0..<n] s' else after_failure cf (sections d) jac res n s')"
  unfolding strided_def Let_def n_def[symmetric]
proof (rule pass_loop_rule[where I = "between_passes (sections d) jac res n" and F = "after_failure cf (sections d) jac res n"])
  show "between_passes (sections d) jac res n [] (first_frame Stride cf res jac d)"
    by (simp add: between_passes_def first_frame_def sections_def)
next
  fix pre p post and t :: "'a frame"
  assume "[0..<n] = pre @ p # post" "between_passes (sections d) jac res n pre t"
  then show "\<exists>b t'. stride_pass cf Stride (jet_parameters d) (sections d) n p t = Inr (b, t') \<and>
           (if b then between_passes (sections d) jac res n (pre @ [p]) t' else after_failure cf (sections d) jac res n t')"
    using stride_pass_between[OF _ _ len] sections_last[of Stride "parameter_block_sizes cf" parameters jac]
    unfolding d_def by blast
qed

text \<open>
  Claim C9.  A call of \<^verbatim>\<open>Evaluate\<close> with the residual count unset (zero) or not positive
  fails the \<^verbatim>\<open>CHECK_GT\<close> and aborts, whatever the other arguments are: the check comes
  before the test for a null \<^verbatim>\<open>jacobians\<close>, and the result is the abort, not a returned
  \<^verbatim>\<open>false\<close>.
\<close>

theorem Evaluate_check_first:
  "num_residuals cf \<le> 0 \<Longrightarrow> Evaluate Stride cf parameters res jacs = Inl CheckFailed"
  by (simp add: Evaluate_def)

theorem Evaluate_check_first_witness:
  "num_residuals (two_block_cost\<lparr>num_residuals := 0\<rparr>) \<le> 0 \<and>
   Evaluate 4 (two_block_cost\<lparr>num_residuals := 0\<rparr>) [[1, 2], [3, 4]] [0, 0] None = Inl CheckFailed \<and>
   Evaluate 4 (two_block_cost\<lparr>num_residuals := 0\<rparr>) [[1, 2], [3, 4]] [0, 0]
     (Some [Some [0, 0, 0, 0], Some [0, 0, 0, 0]]) = Inl CheckFailed"
  using Evaluate_check_first[of "two_block_cost\<lparr>num_residuals := 0\<rparr>" 4 "[[1, 2], [3, 4]]" "[0, 0]" None]
    Evaluate_check_first[of "two_block_cost\<lparr>num_residuals := 0\<rparr>" 4 "[[1, 2], [3, 4]]" "[0, 0]"
      "Some [Some [0, 0, 0, 0], Some [0, 0, 0, 0]]"]
  by simp

lemma Evaluate_strided:
  fixes cf :: "'a::{zero,one} cost_function"
  assumes len: "length jac = length (parameter_block_sizes cf)"
    and pos: "0 < num_residuals cf"
    and act: "num_active_parameters (discover Stride (parameter_block_sizes cf) parameters jac) \<noteq> 0"
  defines "d \<equiv> discover Stride (parameter_block_sizes cf) parameters jac"
  defines "n \<equiv> num_strides_of (num_active_parameters d) Stride"
  shows "\<exists>ok s'. strided Stride cf res jac d = Inr (ok, s') \<and>
           Evaluate Stride cf parameters res (Some jac) =
             Inr \<lparr>returned = ok, residuals_out = residuals s', jacobians_out = Some (jacobians s'),
                  calls = invocations s',
                  cells_written = map (\<lambda>(i, off, x). (i, off)) (writes s')\<rparr> \<and>
           (if ok then between_passes (sections d) jac res n [0..<n] s'
            else after_failure cf (sections d) jac res n s')"
proof -
  from strided_outcome[OF len, of Stride res parameters]
  obtain ok s' where "strided Stride cf res jac d = Inr (ok, s')"
    "if ok then between_passes (sections d) jac res n [0..<n] s' else after_failure cf (sections d) jac res n s'"
    unfolding d_def n_def by blast
  moreover from this(1) have "Evaluate Stride cf parameters res (Some jac) =
             Inr \<lparr>returned = ok, residuals_out = residuals s', jacobians_out = Some (jacobians s'),
                  calls = invocations s',
                  cells_written = map (\<lambda>(i, off, x). (i, off)) (writes s')\<rparr>"
    using pos act by (simp add: Evaluate_def Let_def d_def)
  ultimately show ?thesis by blast
qed

text \<open>
  Claim C8.  On the derivative path the vector of section boundaries ends with the total
  parameter count, no read of \<^verbatim>\<open>start_derivative_section[current_derivative_section]\<close> in
  the seeding and scatter loops is out of range, and the section index ends at most at
  the index of that last entry, one past the last real section.
\<close>

theorem section_reads_in_range:
  fixes cf :: "'a::{zero,one} cost_function"
  assumes "length jac = length (parameter_block_sizes cf)"
  shows "last (sections (discover Stride (parameter_block_sizes cf) parameters jac))
           = sum_list (parameter_block_sizes cf) \<and>
         (\<exists>ok s'. strided Stride cf res jac (discover Stride (parameter_block_sizes cf) parameters jac)
                     = Inr (ok, s') \<and>
                   current_derivative_section s'
                     < length (sections (discover Stride (parameter_block_sizes cf) parameters jac))) \<and>
         Evaluate Stride cf parameters res (Some jac) \<noteq> Inl OutOfRange"
proof -
  let ?d = "discover Stride (parameter_block_sizes cf) parameters jac"
  let ?n = "num_strides_of (num_active_parameters ?d) Stride"
  from strided_outcome[OF assms, of Stride res parameters]
  obtain ok s' where run: "strided Stride cf res jac ?d = Inr (ok, s')"
    and "if ok then between_passes (sections ?d) jac res ?n [0..<?n] s' else after_failure cf (sections ?d) jac res ?n s'"
    by blast
  then have "current_derivative_section s' < length (sections ?d)"
    by (cases ok) (simp_all add: between_passes_def after_failure_def)
  moreover have "Evaluate Stride cf parameters res (Some jac) \<noteq> Inl OutOfRange"
    using run by (simp add: Evaluate_def Let_def)
  ultimately show ?thesis using run sections_last(2)[of Stride "parameter_block_sizes cf" parameters jac]
    by blast
qed

theorem section_reads_in_range_witness:
  "length [Some [0, 0, 0, 0], None] = length (parameter_block_sizes two_block_cost) \<and>
   last (sections (discover 4 (parameter_block_sizes two_block_cost) [[1, 2], [3, 4 :: real]]
                     [Some [0, 0, 0, 0], None]))
     = sum_list (parameter_block_sizes two_block_cost) \<and>
   Evaluate 4 two_block_cost [[1, 2], [3, 4]] [0, 0] (Some [Some [0, 0, 0, 0], None]) \<noteq> Inl OutOfRange"
  using section_reads_in_range[of "[Some [0, 0, 0, 0], None]" two_block_cost 4 "[[1, 2], [3, 4]]" "[0, 0]"]
  by (simp add: two_block_cost_def)

text \<open>
  Claim C5.  When \<^verbatim>\<open>jacobians\<close> is not null but no requested block has a positive size
  (every slot is null, or every non-null slot belongs to a block of size zero), the
  computed active parameter count is zero and \<^verbatim>\<open>Evaluate\<close> is the single direct call of
  the \<^verbatim>\<open>double\<close> instance on the caller's buffers: the same flag, residuals and call
  as with a null \<^verbatim>\<open>jacobians\<close>, no call of the jet instance, no Jacobian cell written.
\<close>

theorem no_active_parameter_falls_back:
  fixes cf :: "'a::{zero,one} cost_function"
  assumes "0 < num_residuals cf"
    and "\<forall>i<length (parameter_block_sizes cf). jac ! i \<noteq> None \<longrightarrow> parameter_block_sizes cf ! i = 0"
  shows "num_active_parameters (discover Stride (parameter_block_sizes cf) parameters jac) = 0 \<and>
         Evaluate Stride cf parameters res (Some jac) = Inr (direct cf parameters res (Some jac)) \<and>
         Evaluate Stride cf parameters res None = Inr (direct cf parameters res None) \<and>
         direct cf parameters res (Some jac) =
           \<lparr>returned = fst (plain (functor_ptr cf) parameters res),
            residuals_out = snd (plain (functor_ptr cf) parameters res),
            jacobians_out = Some jac,
            calls = [Plain parameters (fst (plain (functor_ptr cf) parameters res))],
            cells_written = []\<rparr> \<and>
         direct cf parameters res None = (direct cf parameters res (Some jac))\<lparr>jacobians_out := None\<rparr>"
proof -
  have "num_active_parameters (discover Stride (parameter_block_sizes cf) parameters jac) = 0"
    using assms(2) by (simp add: discover_counts requested_sizes_zero_iff)
  then show ?thesis
    using assms(1) by (simp add: Evaluate_def direct_def split: prod.splits)
qed

theorem no_active_parameter_falls_back_witness:
  "0 < num_residuals two_block_cost \<and>
   num_active_parameters (discover 4 (parameter_block_sizes two_block_cost) [[1, 2], [3, 4 :: real]]
      [None, None]) = 0 \<and>
   Evaluate 4 two_block_cost [[1, 2], [3, 4]] [0, 0] (Some [None, None]) =
     Inr \<lparr>returned = True, residuals_out = [10, 20], jacobians_out = Some [None, None],
          calls = [Plain [[1, 2], [3, 4]] True], cells_written = []\<rparr>"
proof -
  have 1: "0 < num_residuals two_block_cost" by (simp add: two_block_cost_def)
  have 2: "\<forall>i<length (parameter_block_sizes two_block_cost).
      [None, None] ! i \<noteq> (None :: real list option) \<longrightarrow> parameter_block_sizes two_block_cost ! i = 0"
    by (simp add: two_block_cost_def less_Suc_eq)
  have 3: "plain (functor_ptr two_block_cost) [[1, 2], [3, 4]] [0, 0] = (True, [10, 20])"
    by (simp add: two_block_cost_def two_block_functor_def)
  from no_active_parameter_falls_back[OF 1 2, of 4 "[[1, 2], [3, 4]]" "[0, 0]"] 1
  show ?thesis by (simp add: 3)
qed

text \<open>
  Claim C6.  On the derivative path a pass whose functor call returns \<^verbatim>\<open>false\<close> is the last
  one: every logged call but the last succeeded, \<^verbatim>\<open>Evaluate\<close> returns \<^verbatim>\<open>true\<close> exactly
  when all logged calls succeeded, and when it returns \<^verbatim>\<open>false\<close> the caller's residual
  buffer is as it was handed in.
\<close>

theorem functor_failure_ends_call:
  fixes cf :: "'a::{zero,one} cost_function"
  assumes "length jac = length (parameter_block_sizes cf)"
    and "0 < num_residuals cf"
    and "num_active_parameters (discover Stride (parameter_block_sizes cf) parameters jac) \<noteq> 0"
  shows "\<exists>out. Evaluate Stride cf parameters res (Some jac) = Inr out \<and>
           (\<forall>k. Suc k < length (calls out) \<longrightarrow> succeeded (calls out ! k)) \<and>
           (returned out \<longleftrightarrow> (\<forall>c\<in>set (calls out). succeeded c)) \<and>
           (\<not> returned out \<longrightarrow> residuals_out out = res \<and> calls out \<noteq> [] \<and>
                                  \<not> succeeded (last (calls out)))"
proof -
  let ?d = "discover Stride (parameter_block_sizes cf) parameters jac"
  let ?n = "num_strides_of (num_active_parameters ?d) Stride"
  from Evaluate_strided[OF assms, of res]
  obtain ok s' where ev: "Evaluate Stride cf parameters res (Some jac) =
             Inr \<lparr>returned = ok, residuals_out = residuals s', jacobians_out = Some (jacobians s'),
                  calls = invocations s',
                  cells_written = map (\<lambda>(i, off, x). (i, off)) (writes s')\<rparr>"
    and st: "if ok then between_passes (sections ?d) jac res ?n [0..<?n] s'
            else after_failure cf (sections ?d) jac res ?n s'"
    by blast
  show ?thesis
  proof (cases ok)
    case True
    with st have all: "\<forall>c\<in>set (invocations s'). \<exists>jets. c = Dual jets True"
      by (simp add: between_passes_def)
    then have "\<forall>c\<in>set (invocations s'). succeeded c" by auto
    with ev True show ?thesis by simp
  next
    case False
    with st obtain good jets where g: "invocations s' = good @ [Dual jets False]"
      "\<forall>c\<in>set good. \<exists>jets. c = Dual jets True" "residuals s' = res"
      by (auto simp: after_failure_def)
    have "succeeded (invocations s' ! k)" if "Suc k < length (invocations s')" for k
    proof -
      from that g(1) have "k < length good" by simp
      then have "invocations s' ! k \<in> set good" unfolding g(1) by (simp add: nth_append)
      with g(2) show ?thesis by auto
    qed
    with ev False g show ?thesis by simp
  qed
qed

theorem functor_failure_ends_call_witness:
  "length [Some [5, 5, 5, 5], Some [6, 6, 6, 6 :: real]] = length (parameter_block_sizes refusing_cost) \<and>
   0 < num_residuals refusing_cost \<and>
   num_active_parameters (discover 1 (parameter_block_sizes refusing_cost) [[1, 2], [3, 4]]
      [Some [5, 5, 5, 5], Some [6, 6, 6, 6 :: real]]) \<noteq> 0 \<and>
   Evaluate 1 refusing_cost [[1, 2], [3, 4]] [7, 9] (Some [Some [5, 5, 5, 5], Some [6, 6, 6, 6]]) =
     Inr \<lparr>returned = False, residuals_out = [7, 9],
          jacobians_out = Some [Some [5, 5, 5, 5], Some [6, 6, 6, 6]],
          calls = [Dual [Jet 1 [1], Jet 2 [0], Jet 3 [0], Jet 4 [0]] False],
          cells_written = []\<rparr> \<and>
   (\<exists>out. Evaluate 1 refusing_cost [[1, 2], [3, 4]] [7, 9] (Some [Some [5, 5, 5, 5], Some [6, 6, 6, 6]]) = Inr out \<and>
      \<not> returned out \<and> residuals_out out = [7, 9] \<and> calls out \<noteq> [] \<and> \<not> succeeded (last (calls out)))"
proof -
  have 1: "length [Some [5, 5, 5, 5], Some [6, 6, 6, 6 :: real]] = length (parameter_block_sizes refusing_cost)"
    by (simp add: refusing_cost_def)
  have 2: "0 < num_residuals refusing_cost" by (simp add: refusing_cost_def)
  have 3: "num_active_parameters (discover 1 (parameter_block_sizes refusing_cost) [[1, 2], [3, 4]]
      [Some [5, 5, 5, 5], Some [6, 6, 6, 6 :: real]]) \<noteq> 0"
    by code_simp
  have run: "Evaluate 1 refusing_cost [[1, 2], [3, 4]] [7, 9] (Some [Some [5, 5, 5, 5], Some [6, 6, 6, 6]]) =
     Inr \<lparr>returned = False, residuals_out = [7, 9],
          jacobians_out = Some [Some [5, 5, 5, 5], Some [6, 6, 6, 6]],
          calls = [Dual [Jet 1 [1], Jet 2 [0], Jet 3 [0], Jet 4 [0]] False],
          cells_written = []\<rparr>"
    by code_simp
  from functor_failure_ends_call[OF 1 2 3, of "[7, 9]"]
  obtain out where out: "Evaluate 1 refusing_cost [[1, 2], [3, 4]] [7, 9]
        (Some [Some [5, 5, 5, 5], Some [6, 6, 6, 6]]) = Inr out"
    "\<not> returned out \<longrightarrow> residuals_out out = [7, 9] \<and> calls out \<noteq> [] \<and> \<not> succeeded (last (calls out))"
    by blast
  from out(1) run have "\<not> returned out" by simp
  with out 1 2 3 run show ?thesis by blast
qed

text \<open>
  Claim C10.  The parameter arrays are arguments that \<^verbatim>\<open>Evaluate\<close> only reads
  (\<^verbatim>\<open>double const* const*\<close>; no result of the model holds them).  Of the caller's Jacobian
  buffers, a null slot is null afterwards and a non-null slot non-null, and every cell
  written lies in a block whose slot is not null, whatever flag the call returns.  A
  null \<^verbatim>\<open>jacobians\<close> has no cell written at all.
\<close>

theorem writes_only_requested_blocks:
  fixes cf :: "'a::{zero,one} cost_function"
  assumes "\<forall>jac. jacs = Some jac \<longrightarrow> length jac = length (parameter_block_sizes cf)"
    and "Evaluate Stride cf parameters res jacs = Inr out"
  shows "map_option (map (\<lambda>b. b = None)) (jacobians_out out) = map_option (map (\<lambda>b. b = None)) jacs \<and>
         (\<forall>w\<in>set (cells_written out).
            \<exists>jac. jacs = Some jac \<and> fst w < length jac \<and> jac ! fst w \<noteq> None)"
proof (cases "\<not> 0 < num_residuals cf")
  case True
  with assms(2) show ?thesis by (simp add: Evaluate_def)
next
  case pos: False
  show ?thesis
  proof (cases jacs)
    case None
    with assms(2) pos show ?thesis by (auto simp: Evaluate_def direct_def split: prod.splits)
  next
    case (Some jac)
    let ?d = "discover Stride (parameter_block_sizes cf) parameters jac"
    let ?n = "num_strides_of (num_active_parameters ?d) Stride"
    show ?thesis
    proof (cases "num_active_parameters ?d = 0")
      case True
      with assms(2) pos Some show ?thesis
        by (auto simp: Evaluate_def direct_def split: prod.splits)
    next
      case False
      from assms(1) Some have len: "length jac = length (parameter_block_sizes cf)" by simp
      from pos have pos': "0 < num_residuals cf" by simp
      from Evaluate_strided[OF len pos' False, of res]
      obtain ok s' where ev: "Evaluate Stride cf parameters res (Some jac) =
             Inr \<lparr>returned = ok, residuals_out = residuals s', jacobians_out = Some (jacobians s'),
                  calls = invocations s',
                  cells_written = map (\<lambda>(i, off, x). (i, off)) (writes s')\<rparr>"
        and st: "if ok then between_passes (sections ?d) jac res ?n [0..<?n] s'
            else after_failure cf (sections ?d) jac res ?n s'"
        by blast
      from st have "map (\<lambda>b. b = None) (jacobians s') = map (\<lambda>b. b = None) jac"
        "\<forall>w\<in>set (writes s'). fst w < length jac \<and> jac ! fst w \<noteq> None"
        by (cases ok; simp add: between_passes_def after_failure_def)+
      then have pat: "map (\<lambda>b. b = None) (jacobians s') = map (\<lambda>b. b = None) jac"
        and wr: "\<forall>w\<in>set (writes s'). fst w < length jac \<and> jac ! fst w \<noteq> None"
        by simp_all
      have out: "out = \<lparr>returned = ok, residuals_out = residuals s', jacobians_out = Some (jacobians s'),
                  calls = invocations s',
                  cells_written = map (\<lambda>(i, off, x). (i, off)) (writes s')\<rparr>"
        using ev assms(2) Some by simp
      have "fst w < length jac \<and> jac ! fst w \<noteq> None" if "w \<in> set (cells_written out)" for w
      proof -
        from that obtain v where v: "v \<in> set (writes s')" "w = (case v of (i, off, x) \<Rightarrow> (i, off))"
          unfolding out by auto
        from v(2) have "fst w = fst v" by (cases v) simp
        with wr v(1) show ?thesis by simp
      qed
      with pat Some show ?thesis unfolding out by simp
    qed
  qed
qed

theorem writes_only_requested_blocks_witness:
  "Evaluate 3 two_block_cost [[1, 2], [3, 4]] [0, 0] (Some [None, Some [0, 0, 0, 0]]) =
     Inr \<lparr>returned = True, residuals_out = [10, 20],
          jacobians_out = Some [None, Some [6, 0, 0, 8]],
          calls = [Dual [Jet 1 [0, 0, 0], Jet 2 [0, 0, 0], Jet 3 [1, 0, 0], Jet 4 [0, 1, 0]] True],
          cells_written = [(1, 0), (1, 2), (1, 1), (1, 3)]\<rparr> \<and>
   map_option (map (\<lambda>b. b = None)) (Some [None, Some [6, 0, 0, 8 :: real]]) =
     map_option (map (\<lambda>b. b = None)) (Some [None, Some [0, 0, 0, 0 :: real]]) \<and>
   (\<exists>jac. Some [None, Some [0, 0, 0, 0 :: real]] = Some jac \<and> fst (1 :: nat, 3 :: nat) < length jac \<and>
          jac ! fst (1 :: nat, 3 :: nat) \<noteq> None)"
proof -
  have len: "\<forall>jac. Some [None, Some [0, 0, 0, 0 :: real]] = Some jac \<longrightarrow>
      length jac = length (parameter_block_sizes two_block_cost)"
    by (simp add: two_block_cost_def)
  have run: "Evaluate 3 two_block_cost [[1, 2], [3, 4]] [0, 0] (Some [None, Some [0, 0, 0, 0]]) =
     Inr \<lparr>returned = True, residuals_out = [10, 20],
          jacobians_out = Some [None, Some [6, 0, 0, 8]],
          calls = [Dual [Jet 1 [0, 0, 0], Jet 2 [0, 0, 0], Jet 3 [1, 0, 0], Jet 4 [0, 1, 0]] True],
          cells_written = [(1, 0), (1, 2), (1, 1), (1, 3)]\<rparr>"
    by code_simp
  from writes_only_requested_blocks[OF len run] run show ?thesis by simp
qed

text \<open>
  Claim C2.  The two-block functor \<open>f(x1, x2) = [x1[0]^2 + x2[0]^2, x1[1]^2 + x2[1]^2]\<close>
  with both slots requested at \<open>x1 = [1, 2]\<close>, \<open>x2 = [3, 4]\<close>: \<^verbatim>\<open>Evaluate\<close> returns
  \<^verbatim>\<open>true\<close>, the residuals are \<open>[10, 20]\<close>, the buffer of block 0 is \<open>[2, 0, 0, 4]\<close> and
  that of block 1 is \<open>[6, 0, 0, 8]\<close>, whatever the buffers held before; the cell of
  residual \<open>k\<close> and column \<open>j\<close> is at offset \<open>k * 2 + j\<close>, as the log of the cells written
  shows.  The stride is the default 4, one pass.  All values are small integers, exact
  in \<^verbatim>\<open>double\<close>.
\<close>

theorem two_block_scenario:
  "Evaluate 4 two_block_cost [[1, 2], [3, 4]] [r0, r1]
     (Some [Some [a0, a1, a2, a3], Some [b0, b1, b2, b3]]) =
   Inr \<lparr>returned = True, residuals_out = [10, 20],
        jacobians_out = Some [Some [2, 0, 0, 4], Some [6, 0, 0, 8]],
        calls = [Dual [Jet 1 [1, 0, 0, 0], Jet 2 [0, 1, 0, 0], Jet 3 [0, 0, 1, 0], Jet 4 [0, 0, 0, 1]] True],
        cells_written = [(0, 0 * 2 + 0), (0, 1 * 2 + 0), (0, 0 * 2 + 1), (0, 1 * 2 + 1),
                         (1, 0 * 2 + 0), (1, 1 * 2 + 0), (1, 0 * 2 + 1), (1, 1 * 2 + 1)]\<rparr>"
  by code_simp

subsection \<open>Single-precision rounding\<close>

declare log2_floor.simps [simp del]

lemma log2_floor_bounds:
  "0 < n \<Longrightarrow> 2 ^ log2_floor n \<le> n \<and> n < 2 ^ Suc (log2_floor n)"
proof (induction n rule: log2_floor.induct)
  case (1 n)
  show ?case
  proof (cases "n < 2")
    case True
    with "1.prems" show ?thesis by (subst (1 2) log2_floor.simps) simp
  next
    case False
    then have "0 < n div 2" by simp
    with "1.IH" False have IH: "2 ^ log2_floor (n div 2) \<le> n div 2" "n div 2 < 2 ^ Suc (log2_floor (n div 2))"
      by simp_all
    have eq: "log2_floor n = Suc (log2_floor (n div 2))"
      using False by (subst log2_floor.simps) simp
    from IH(1) have "2 * 2 ^ log2_floor (n div 2) \<le> n" by simp
    moreover from IH(2) have "n < 2 * 2 ^ Suc (log2_floor (n div 2))" by simp
    ultimately show ?thesis unfolding eq by simp
  qed
qed

lemma float_exponent_bounds:
  assumes "0 < q"
  shows "2 powi float_exponent q \<le> q" and "q < 2 powi (float_exponent q + 1)"
proof -
  have "2 powi float_exponent q \<le> q \<and> q < 2 powi (float_exponent q + 1)"
  proof (cases "1 \<le> q")
    case True
    define m where "m = nat \<lfloor>q\<rfloor>"
    have m: "0 < m" "real m \<le> q" "q < real m + 1"
      using True by (simp_all add: m_def)
    from log2_floor_bounds[OF m(1)]
    have b: "2 ^ log2_floor m \<le> m" "Suc m \<le> 2 ^ Suc (log2_floor m)" by simp_all
    have e: "float_exponent q = int (log2_floor m)"
      using True by (simp add: float_exponent_def m_def)
    have "real (2 ^ log2_floor m) \<le> real m" using b(1) by (simp only: of_nat_le_iff)
    then have A: "(2::real) ^ log2_floor m \<le> real m" by simp
    have "real (Suc m) \<le> real (2 ^ Suc (log2_floor m))" using b(2) by (simp only: of_nat_le_iff)
    then have B: "real m + 1 \<le> 2 * (2::real) ^ log2_floor m" by simp
    have p0: "2 powi int (log2_floor m) = (2::real) ^ log2_floor m" by simp
    have p1: "2 powi (int (log2_floor m) + 1) = 2 * (2::real) ^ log2_floor m"
      by (simp add: power_int_add)
    show ?thesis unfolding e p0 p1 using A B m(2,3) by linarith
  next
    case False
    define m where "m = nat \<lceil>1 / q\<rceil>"
    from False assms have "1 < 1 / q" by simp
    then have c: "2 \<le> \<lceil>1 / q\<rceil>" by linarith
    then have m2: "2 \<le> m" unfolding m_def by linarith
    have mq: "1 / q \<le> real m" "real m - 1 < 1 / q"
      using c by (simp_all add: m_def) linarith+
    define j where "j = log2_floor (m - 1)"
    from log2_floor_bounds[of "m - 1"] m2
    have b: "2 ^ j \<le> m - 1" "m \<le> 2 ^ Suc j" by (simp_all add: j_def) linarith
    have e: "float_exponent q = - int (Suc j)"
      unfolding float_exponent_def log2_ceil_def m_def[symmetric] using False m2 by (simp add: j_def)
    have "real (2 ^ j) \<le> real (m - 1)" using b(1) by (simp only: of_nat_le_iff)
    then have lo: "(2::real) ^ j \<le> real m - 1" using m2 by (simp add: of_nat_diff)
    have "real m \<le> real (2 ^ Suc j)" using b(2) by (simp only: of_nat_le_iff)
    then have hi: "real m \<le> (2::real) ^ Suc j" by simp
    from mq(1) hi have "1 / q \<le> 2 ^ Suc j" by linarith
    then have 1: "1 / 2 ^ Suc j \<le> q" using assms by (simp add: field_simps)
    from mq(2) lo have "2 ^ j < 1 / q" by linarith
    then have 2: "q < 1 / 2 ^ j" using assms by (simp add: field_simps)
    have p1: "2 powi (- int (Suc j)) = 1 / (2::real) ^ Suc j"
      unfolding power_int_minus_divide power_int_of_nat ..
    have "- int (Suc j) + 1 = - int j" by simp
    then have p2: "2 powi (- int (Suc j) + 1) = 1 / (2::real) ^ j"
      unfolding power_int_minus_divide power_int_of_nat by (simp only: power_int_minus_divide power_int_of_nat)
    show ?thesis unfolding e p1 p2 using 1 2 by simp
  qed
  then show "2 powi float_exponent q \<le> q" and "q < 2 powi (float_exponent q + 1)" by simp_all
qed

lemma float_ulp_pos [simp]: "0 < float_ulp q"
  by (simp add: float_ulp_def)

lemma float_round_unfold:
  assumes "0 < q"
  shows "float_round q =
           of_int (if q / float_ulp q - of_int \<lfloor>q / float_ulp q\<rfloor> < 1 / 2 then \<lfloor>q / float_ulp q\<rfloor>
                   else if 1 / 2 < q / float_ulp q - of_int \<lfloor>q / float_ulp q\<rfloor> then \<lfloor>q / float_ulp q\<rfloor> + 1
                   else if even \<lfloor>q / float_ulp q\<rfloor> then \<lfloor>q / float_ulp q\<rfloor> else \<lfloor>q / float_ulp q\<rfloor> + 1)
           * float_ulp q"
  using assms by (simp add: float_round_def float_ulp_def Let_def)

lemma float_round_choice:
  assumes "0 < q"
  shows "float_round q = of_int \<lfloor>q / float_ulp q\<rfloor> * float_ulp q \<or>
         float_round q = of_int (\<lfloor>q / float_ulp q\<rfloor> + 1) * float_ulp q"
  unfolding float_round_unfold[OF assms] by simp

lemma float_round_error:
  assumes "0 < q"
  shows "\<bar>float_round q - q\<bar> \<le> float_ulp q / 2"
proof -
  define u where "u = float_ulp q"
  define m where "m = \<lfloor>q / u\<rfloor>"
  define r where "r = q / u - of_int m"
  have u: "0 < u" by (simp add: u_def)
  have r: "0 \<le> r" "r < 1" unfolding r_def m_def by linarith+
  have q: "q = (of_int m + r) * u" using u by (simp add: r_def)
  have fr: "float_round q = of_int (if r < 1 / 2 then m else if 1 / 2 < r then m + 1
                                   else if even m then m else m + 1) * u"
    unfolding float_round_unfold[OF assms] r_def m_def u_def ..
  consider "float_round q = of_int m * u" "r \<le> 1 / 2" | "float_round q = of_int (m + 1) * u" "1 / 2 \<le> r"
    unfolding fr by (cases "r < 1 / 2"; cases "1 / 2 < r"; cases "even m") auto
  then show ?thesis
  proof cases
    case 1
    have "float_round q - q = - r * u" unfolding 1(1) by (subst q) (simp add: algebra_simps)
    moreover have "r * u \<le> u / 2" using 1(2) u by (simp add: field_simps)
    moreover have "0 \<le> r * u" using r(1) u by simp
    ultimately show ?thesis unfolding u_def[symmetric] by (simp add: abs_if)
  next
    case 2
    have "float_round q - q = (1 - r) * u" unfolding 2(1) by (subst q) (simp add: algebra_simps)
    moreover have "(1 - r) * u \<le> u / 2" using 2(2) u by (simp add: field_simps)
    moreover have "0 \<le> (1 - r) * u" using r(2) u by simp
    ultimately show ?thesis unfolding u_def[symmetric] by (simp add: abs_if)
  qed
qed

lemma float_round_grid:
  assumes "0 < q" "q / float_ulp q = of_int j"
  shows "float_round q = q"
  unfolding float_round_unfold[OF assms(1)] assms(2) using assms(2) float_ulp_pos[of q]
  by (simp add: field_simps)

lemma float_round_le_grid:
  assumes "0 < q" "q \<le> of_int j * float_ulp q"
  shows "float_round q \<le> of_int j * float_ulp q"
proof -
  define u where "u = float_ulp q"
  have u: "0 < u" by (simp add: u_def)
  from assms(2) u have le: "q / u \<le> of_int j" by (simp add: field_simps u_def)
  then have mj: "\<lfloor>q / u\<rfloor> \<le> j" by (simp add: floor_le_iff)
  show ?thesis
  proof (cases "\<lfloor>q / u\<rfloor> = j")
    case True
    then have "of_int j \<le> q / u" by (metis of_int_floor_le)
    with le have "q / u = of_int j" by simp
    from float_round_grid[OF assms(1) this[unfolded u_def]] assms(2) show ?thesis by simp
  next
    case False
    with mj have "\<lfloor>q / u\<rfloor> + 1 \<le> j" by simp
    then have "(of_int (\<lfloor>q / u\<rfloor> + 1) :: real) \<le> of_int j" by (simp only: of_int_le_iff)
    then have 1: "of_int (\<lfloor>q / u\<rfloor> + 1) * u \<le> of_int j * u" using u by simp
    have "(of_int \<lfloor>q / u\<rfloor> :: real) \<le> of_int (\<lfloor>q / u\<rfloor> + 1)" by simp
    then have 2: "of_int \<lfloor>q / u\<rfloor> * u \<le> of_int (\<lfloor>q / u\<rfloor> + 1) * u" using u by (simp only: mult_le_cancel_right_pos)
    from float_round_choice[OF assms(1)] 1 2 show ?thesis unfolding u_def by linarith
  qed
qed

lemma float_round_ge_power:
  assumes "0 < q"
  shows "2 powi float_exponent q \<le> float_round q"
proof -
  define u where "u = float_ulp q"
  have u: "0 < u" by (simp add: u_def)
  have "2 powi float_exponent q = 2 powi 23 * u"
    unfolding u_def float_ulp_def by (simp add: power_int_diff)
  then have g: "2 powi float_exponent q = of_int (2 ^ 23) * u" by simp
  have "of_int (2 ^ 23) * u \<le> q" using float_exponent_bounds(1)[OF assms] g by simp
  then have "of_int (2 ^ 23) \<le> q / u" using u by (simp add: field_simps)
  then have "2 ^ 23 \<le> \<lfloor>q / u\<rfloor>" by (simp only: le_floor_iff)
  then have "(of_int (2 ^ 23) :: real) \<le> of_int \<lfloor>q / u\<rfloor>" by (simp only: of_int_le_iff)
  then have 1: "of_int (2 ^ 23) * u \<le> of_int \<lfloor>q / u\<rfloor> * u" using u by (simp only: mult_le_cancel_right_pos)
  have "(of_int \<lfloor>q / u\<rfloor> :: real) \<le> of_int (\<lfloor>q / u\<rfloor> + 1)" by simp
  then have 2: "of_int \<lfloor>q / u\<rfloor> * u \<le> of_int (\<lfloor>q / u\<rfloor> + 1) * u" using u by (simp only: mult_le_cancel_right_pos)
  from float_round_choice[OF assms] 1 2 show ?thesis unfolding g u_def by linarith
qed

lemma float_round_pos: "0 < q \<Longrightarrow> 0 < float_round q"
  using float_round_ge_power[of q] zero_less_power_int[of "2::real" "float_exponent q"] by linarith

lemma float_exponent_less:
  assumes "0 < q" "q < 2 powi k"
  shows "float_exponent q < k"
proof (rule ccontr)
  assume "\<not> float_exponent q < k"
  then have "k \<le> float_exponent q" by simp
  then have "(2::real) powi k \<le> 2 powi float_exponent q" by (intro power_int_increasing) simp_all
  with float_exponent_bounds(1)[OF assms(1)] assms(2) show False by linarith
qed

lemma float_exponent_ge:
  assumes "0 < q" "2 powi k \<le> q"
  shows "k \<le> float_exponent q"
proof (rule ccontr)
  assume "\<not> k \<le> float_exponent q"
  then have "float_exponent q + 1 \<le> k" by simp
  then have "(2::real) powi (float_exponent q + 1) \<le> 2 powi k" by (intro power_int_increasing) simp_all
  with float_exponent_bounds(2)[OF assms(1)] assms(2) show False by linarith
qed

lemma float_ulp_small:
  assumes "float_exponent q \<le> 23"
  shows "float_ulp q = 1 / 2 ^ nat (23 - float_exponent q)"
proof -
  have "float_exponent q - 23 = - int (nat (23 - float_exponent q))" using assms by simp
  then have "float_ulp q = 2 powi (- int (nat (23 - float_exponent q)))"
    unfolding float_ulp_def by (simp only:)
  then show ?thesis unfolding power_int_minus_divide power_int_of_nat .
qed

lemma integer_on_grid:
  assumes "float_exponent q \<le> 23"
  shows "real_of_int c = of_int (c * 2 ^ nat (23 - float_exponent q)) * float_ulp q"
  unfolding float_ulp_small[OF assms] by simp

lemma float_round_of_nat:
  assumes "0 < n" "n < 2 ^ 24"
  shows "float_round (real n) = real n"
proof -
  have pos: "0 < real n" using assms(1) by simp
  have "real n < real (2 ^ 24)" using assms(2) by (simp only: of_nat_less_iff)
  then have "real n < 2 powi 24" by simp
  from float_exponent_less[OF pos this] have e: "float_exponent (real n) \<le> 23" by simp
  have "real n / float_ulp (real n) = of_int (int n * 2 ^ nat (23 - float_exponent (real n)))"
    unfolding float_ulp_small[OF e] by simp
  from float_round_grid[OF pos this] show ?thesis .
qed

lemma float_round_large:
  assumes "2 ^ 24 \<le> x"
  shows "2 ^ 24 \<le> float_round x"
proof -
  have pos: "0 < x" using assms by (smt (verit) zero_less_power)
  have "2 powi 24 \<le> x" using assms by simp
  from float_exponent_ge[OF pos this] have "(2::real) powi 24 \<le> 2 powi float_exponent x"
    by (intro power_int_increasing) simp_all
  with float_round_ge_power[OF pos] show ?thesis by simp
qed

lemma ceiling_float_round_small:
  assumes "0 < q" "q \<le> 1"
  shows "\<lceil>float_round q\<rceil> = 1"
proof -
  have "q < 2 powi 1" using assms(2) by simp
  from float_exponent_less[OF assms(1) this] have e: "float_exponent q \<le> 23" by simp
  have "q \<le> of_int (1 * 2 ^ nat (23 - float_exponent q)) * float_ulp q"
    using assms(2) integer_on_grid[OF e, of 1] by simp
  from float_round_le_grid[OF assms(1) this] integer_on_grid[OF e, of 1]
  have "float_round q \<le> 1" by simp
  with float_round_pos[OF assms(1)] show ?thesis by (simp add: ceiling_eq_iff)
qed

lemma num_strides_pos:
  assumes "0 < n" "0 < S"
  shows "0 < num_strides_of n S"
proof -
  have "0 < float_round (real n)" "0 < float_round (real S)"
    using assms by (simp_all add: float_round_pos)
  then have "0 < float_round (float_round (real n) / float_round (real S))"
    by (intro float_round_pos) simp
  then show ?thesis by (simp add: num_strides_of_def)
qed

lemma num_strides_exact:
  assumes n: "0 < n" "n < 2 ^ 24" and S: "0 < S"
  shows "num_strides_of n S = (n + S - 1) div S"
proof -
  have A: "float_round (real n) = real n" by (rule float_round_of_nat[OF n])
  have npos: "0 < real n" using n(1) by simp
  have nlt: "real n < 2 ^ 24"
  proof -
    have "real n < real (2 ^ 24)" using n(2) by (simp only: of_nat_less_iff)
    then show ?thesis by simp
  qed
  show ?thesis
  proof (cases "S < 2 ^ 24")
    case False
    then have "n < S" using n(2) by simp
    then have rhs: "(n + S - 1) div S = 1" using n(1) by (simp add: div_eq_dividend_iff Suc_le_eq div_nat_eqI)
    have "real (2 ^ 24) \<le> real S" using False by (simp only: of_nat_le_iff not_less)
    then have "2 ^ 24 \<le> real S" by simp
    from float_round_large[OF this] have B: "2 ^ 24 \<le> float_round (real S)" .
    then have "real n / float_round (real S) \<le> 1" "0 < real n / float_round (real S)"
      using nlt npos by (simp_all add: field_simps)
    from ceiling_float_round_small[OF this(2,1)] show ?thesis
      unfolding num_strides_of_def A rhs by simp
  next
    case True
    have B: "float_round (real S) = real S" by (rule float_round_of_nat[OF S True])
    define q where "q = real n / real S"
    define c where "c = (n + S - 1) div S"
    have Spos: "0 < real S" using S by simp
    have qpos: "0 < q" using npos Spos by (simp add: q_def)
    have cS: "n \<le> c * S" "(c - 1) * S < n" "0 < c"
    proof -
      have "(n + S - 1) mod S < S" using S by simp
      moreover have "c * S + (n + S - 1) mod S = n + S - 1" by (simp add: c_def)
      ultimately show "n \<le> c * S" by linarith
      have "c * S \<le> n + S - 1" by (simp add: c_def)
      moreover have "S \<le> n + S - 1" using n(1) by simp
      then have "0 < c" using S unfolding c_def by (simp add: div_greater_zero_iff)
      then show "0 < c" .
      ultimately show "(c - 1) * S < n" using S n(1) by (cases c) (simp_all add: algebra_simps)
    qed
    have up: "q \<le> real c"
    proof -
      have "real n \<le> real (c * S)" using cS(1) by (simp only: of_nat_le_iff)
      then show ?thesis using Spos by (simp add: q_def field_simps)
    qed
    have low: "real c - 1 + 1 / real S \<le> q"
    proof -
      have "Suc ((c - 1) * S) \<le> n" using cS(2) by simp
      then have "real (Suc ((c - 1) * S)) \<le> real n" by (simp only: of_nat_le_iff)
      then have "(real c - 1) * real S + 1 \<le> real n" using cS(3) by (simp add: of_nat_diff algebra_simps)
      moreover have "(real c - 1 + 1 / real S) * real S = (real c - 1) * real S + 1"
        using Spos by (simp add: algebra_simps)
      ultimately have "(real c - 1 + 1 / real S) * real S \<le> real n" by simp
      then show ?thesis unfolding q_def using Spos by (simp only: pos_le_divide_eq)
    qed
    have "q \<le> real n" using Spos npos S by (simp add: q_def field_simps)
    with nlt have "q < 2 powi 24" by simp
    from float_exponent_less[OF qpos this] have e: "float_exponent q \<le> 23" by simp
    have g: "real c = of_int (int c * 2 ^ nat (23 - float_exponent q)) * float_ulp q"
      using integer_on_grid[OF e, of "int c"] by (simp only: of_int_of_nat_eq)
    have "q \<le> of_int (int c * 2 ^ nat (23 - float_exponent q)) * float_ulp q"
      using up g by linarith
    from float_round_le_grid[OF qpos this] g
    have upper: "float_round q \<le> real c" by linarith
    have half: "float_ulp q / 2 < 1 / real S"
    proof -
      have "2 powi float_exponent q * real S \<le> q * real S"
        using float_exponent_bounds(1)[OF qpos] Spos by simp
      also have "\<dots> = real n" using Spos by (simp add: q_def)
      also have "\<dots> < 2 ^ 24" by (rule nlt)
      finally have lt: "2 powi float_exponent q * real S < 2 ^ 24" .
      have eq: "2 powi float_exponent q = float_ulp q * 2 ^ 23"
        unfolding float_ulp_def by (simp add: power_int_diff)
      from lt have "(float_ulp q * real S) * 2 ^ 23 < 2 * 2 ^ 23"
        unfolding eq by (simp add: mult_ac)
      then have "float_ulp q * real S < 2" by (simp only: mult_less_cancel_right_pos zero_less_power zero_less_numeral)
      then show ?thesis using Spos by (simp add: field_simps)
    qed
    from float_round_error[OF qpos] have "q - float_ulp q / 2 \<le> float_round q" by linarith
    with half low have lower: "real c - 1 < float_round q" by linarith
    from lower upper have "\<lceil>float_round q\<rceil> = int c" by (simp add: ceiling_eq_iff)
    then show ?thesis unfolding num_strides_of_def A B q_def[symmetric] c_def[symmetric] by simp
  qed
qed

lemma invocation_count:
  fixes cf :: "'a::{zero,one} cost_function"
  assumes "length jac = length (parameter_block_sizes cf)"
    and "0 < num_residuals cf"
    and "num_active_parameters (discover Stride (parameter_block_sizes cf) parameters jac) \<noteq> 0"
    and "Evaluate Stride cf parameters res (Some jac) = Inr out"
    and "returned out"
  shows "length (calls out) =
           num_strides_of (requested_sizes (parameter_block_sizes cf) jac (length (parameter_block_sizes cf))) Stride"
proof -
  let ?d = "discover Stride (parameter_block_sizes cf) parameters jac"
  let ?n = "num_strides_of (num_active_parameters ?d) Stride"
  from Evaluate_strided[OF assms(1-3), of res]
  obtain ok s' where ev: "Evaluate Stride cf parameters res (Some jac) =
             Inr \<lparr>returned = ok, residuals_out = residuals s', jacobians_out = Some (jacobians s'),
                  calls = invocations s',
                  cells_written = map (\<lambda>(i, off, x). (i, off)) (writes s')\<rparr>"
    and st: "if ok then between_passes (sections ?d) jac res ?n [0..<?n] s'
            else after_failure cf (sections ?d) jac res ?n s'"
    by blast
  from ev assms(4,5) have ok by auto
  with st have "length (invocations s') = ?n" by (simp add: between_passes_def)
  with ev assms(4) show ?thesis by (auto simp: discover_counts)
qed

lemma invocation_count_exact:
  fixes cf :: "'a::{zero,one} cost_function"
  assumes "length jac = length (parameter_block_sizes cf)"
    and "0 < num_residuals cf"
    and "num_active_parameters (discover Stride (parameter_block_sizes cf) parameters jac) \<noteq> 0"
    and "Evaluate Stride cf parameters res (Some jac) = Inr out"
    and "returned out"
    and "requested_sizes (parameter_block_sizes cf) jac (length (parameter_block_sizes cf)) < 2 ^ 24"
    and "0 < Stride"
  shows "length (calls out) =
           (requested_sizes (parameter_block_sizes cf) jac (length (parameter_block_sizes cf)) + Stride - 1)
             div Stride"
proof -
  have "0 < requested_sizes (parameter_block_sizes cf) jac (length (parameter_block_sizes cf))"
    using assms(3) by (simp add: discover_counts)
  from num_strides_exact[OF this assms(6,7)] invocation_count[OF assms(1-5)] show ?thesis by simp
qed

text \<open>
  Claim C7.  With one requested block of \<open>2^24 + 1 = 16777217\<close> parameters and stride 1, a
  functor that always succeeds is invoked 16777216 times, one time fewer than the
  \<open>ceil(16777217 / 1) = 16777217\<close> of the claim: the quotient is computed in single
  precision, and \<^verbatim>\<open>static_cast<float>\<close> of the count rounds \<open>16777217\<close> to \<open>16777216\<close>.
\<close>

theorem single_precision_stride_count:
  "\<exists>out. Evaluate 1 wide_cost [wide_block] [0] (Some [Some wide_block]) = Inr out \<and>
         returned out \<and>
         num_active_parameters (discover 1 (parameter_block_sizes wide_cost) [wide_block] [Some wide_block])
           = 16777217 \<and>
         length (calls out) = 16777216 \<and>
         (16777217 + 1 - 1) div 1 = (16777217 :: nat)"
proof -
  let ?jac = "[Some wide_block]"
  let ?d = "discover 1 (parameter_block_sizes wide_cost) [wide_block] ?jac"
  have len: "length ?jac = length (parameter_block_sizes wide_cost)" by (simp add: wide_cost_def)
  have pos: "0 < num_residuals wide_cost" by (simp add: wide_cost_def)
  have act: "num_active_parameters ?d = 16777217"
    by (simp add: discover_counts requested_sizes_def wide_cost_def)
  then have act0: "num_active_parameters ?d \<noteq> 0" by simp
  have n: "num_strides_of 16777217 1 = 16777216"
    by (simp add: num_strides_of_def float_round_def float_exponent_def log2_ceil_def Let_def
          log2_floor.simps)
  from Evaluate_strided[OF len pos act0, of "[0]"]
  obtain ok s' where ev: "Evaluate 1 wide_cost [wide_block] [0] (Some ?jac) =
             Inr \<lparr>returned = ok, residuals_out = residuals s', jacobians_out = Some (jacobians s'),
                  calls = invocations s',
                  cells_written = map (\<lambda>(i, off, x). (i, off)) (writes s')\<rparr>"
    and st: "if ok then between_passes (sections ?d) ?jac [0] (num_strides_of (num_active_parameters ?d) 1)
                          [0..<num_strides_of (num_active_parameters ?d) 1] s'
            else after_failure wide_cost (sections ?d) ?jac [0] (num_strides_of (num_active_parameters ?d) 1) s'"
    by blast
  have ok
  proof (rule ccontr)
    assume "\<not> ok"
    with st obtain pack buf where "\<not> fst (dual (functor_ptr wide_cost) pack buf)"
      by (auto simp: after_failure_def)
    then show False by (simp add: wide_cost_def sum_functor_def)
  qed
  with st have "length (invocations s') = 16777216"
    unfolding act n by (simp add: between_passes_def)
  with ev \<open>ok\<close> act show ?thesis by simp
qed

lemma set_block_append:
  assumes "length A = c" "length p = k"
  shows "set_block c p k (A @ replicate (k + m) (Jet a0 v0)) =
           A @ map (\<lambda>x. Jet x v0) p @ replicate m (Jet a0 v0)"
proof (rule nth_equalityI)
  show "length (set_block c p k (A @ replicate (k + m) (Jet a0 v0))) =
        length (A @ map (\<lambda>x. Jet x v0) p @ replicate m (Jet a0 v0))"
    using assms by simp
next
  fix q assume "q < length (set_block c p k (A @ replicate (k + m) (Jet a0 v0)))"
  then have q: "q < c + k + m" using assms by simp
  consider "q < c" | "c \<le> q" "q < c + k" | "c + k \<le> q" by linarith
  then show "set_block c p k (A @ replicate (k + m) (Jet a0 v0)) ! q =
             (A @ map (\<lambda>x. Jet x v0) p @ replicate m (Jet a0 v0)) ! q"
  proof cases
    case 1
    then show ?thesis using q assms by (simp add: nth_set_block nth_append)
  next
    case 2
    then have "q - c < k" by linarith
    with 2 show ?thesis using q assms by (simp add: nth_set_block nth_append)
  next
    case 3
    then have "\<not> q - c < k" "\<not> q < c" by linarith+
    with 3 show ?thesis using q assms by (simp add: nth_set_block nth_append)
  qed
qed

lemma sum_list_take_length:
  "sum_list (take n (map length xss)) = length (concat (take n xss))"
  by (simp add: length_concat take_map)

lemma discover_jets:
  fixes parameters :: "'a::zero list list"
  assumes "map length parameters = sizes"
  shows "d_input_jets (discover Stride sizes parameters jac) =
           map (\<lambda>x. Jet x (replicate Stride 0)) (concat parameters)"
proof -
  let ?z = "replicate Stride (0::'a)"
  let ?P = "\<lambda>n (d::'a discovery). d_parameter_cursor d = sum_list (take n sizes) \<and>
              d_input_jets d = map (\<lambda>x. Jet x ?z) (concat (take n parameters)) @
                               replicate (sum_list sizes - sum_list (take n sizes)) (Jet 0 ?z)"
  have len: "length parameters = length sizes" using assms by (metis length_map)
  have "?P (length sizes) (discover Stride sizes parameters jac)"
    unfolding discover_def
  proof (rule fold_upt_invariant[where P = ?P])
    show "?P 0 \<lparr>d_input_jets = replicate (sum_list sizes) (zero_jet Stride), jet_parameters = [],
             num_active_parameters = 0, start_derivative_section = [],
             in_derivative_section = False, d_parameter_cursor = 0\<rparr>"
      by (simp add: zero_jet_def)
  next
    fix i and t :: "'a discovery"
    assume i: "i < length sizes" and P: "?P i t"
    let ?A = "map (\<lambda>x. Jet x ?z) (concat (take i parameters))"
    have szi: "sizes ! i = length (parameters ! i)" using assms i by (metis nth_map len)
    have lenA: "length ?A = sum_list (take i sizes)"
      using assms sum_list_take_length[of i parameters] by simp
    have split: "sum_list sizes - sum_list (take i sizes) =
                 sizes ! i + (sum_list sizes - sum_list (take (Suc i) sizes))"
    proof -
      have "sum_list sizes = sum_list (take (Suc i) sizes) + sum_list (drop (Suc i) sizes)"
        by (metis append_take_drop_id sum_list_append)
      then show ?thesis using i by (simp add: take_Suc_conv_app_nth)
    qed
    have "set_block (sum_list (take i sizes)) (parameters ! i) (sizes ! i)
            (?A @ replicate (sizes ! i + (sum_list sizes - sum_list (take (Suc i) sizes))) (Jet 0 ?z)) =
          ?A @ map (\<lambda>x. Jet x ?z) (parameters ! i) @
            replicate (sum_list sizes - sum_list (take (Suc i) sizes)) (Jet 0 ?z)"
      by (rule set_block_append[OF lenA]) (simp add: szi)
    then show "?P (Suc i) (discover_block sizes parameters jac i t)"
      using P i len by (simp add: discover_block_eq take_Suc_conv_app_nth split)
  qed
  then show ?thesis using len by simp
qed

lemma concat_nth_block:
  assumes "i < length xss"
  shows "take (length (xss ! i)) (drop (length (concat (take i xss))) (concat xss)) = xss ! i"
proof -
  have "concat xss = concat (take i xss) @ xss ! i @ concat (drop (Suc i) xss)"
    using assms by (metis concat.simps(2) concat_append id_take_nth_drop)
  then show ?thesis by simp
qed

lemma pack_primal:
  assumes "map length parameters = sizes" "map jet_a jets = concat parameters"
  shows "map (map jet_a) (jet_pack (map (\<lambda>i. sum_list (take i sizes)) [0..<length sizes]) sizes jets)
           = parameters"
proof (rule nth_equalityI)
  have len: "length parameters = length sizes" using assms(1) by (metis length_map)
  show "length (map (map jet_a) (jet_pack (map (\<lambda>i. sum_list (take i sizes)) [0..<length sizes]) sizes jets))
          = length parameters"
    using len by (simp add: jet_pack_def)
  fix i assume "i < length (map (map jet_a) (jet_pack (map (\<lambda>i. sum_list (take i sizes)) [0..<length sizes]) sizes jets))"
  then have i: "i < length sizes" by (simp add: jet_pack_def)
  have szi: "sizes ! i = length (parameters ! i)" using assms(1) i len by (metis nth_map)
  have off: "sum_list (take i sizes) = length (concat (take i parameters))"
    using assms(1) sum_list_take_length[of i parameters] by simp
  have "map jet_a (take (sizes ! i) (drop (sum_list (take i sizes)) jets)) =
        take (sizes ! i) (drop (sum_list (take i sizes)) (map jet_a jets))"
    by (simp add: take_map drop_map)
  also have "\<dots> = parameters ! i"
    unfolding assms(2) szi off using concat_nth_block[of i parameters] i len by simp
  finally show "map (map jet_a) (jet_pack (map (\<lambda>i. sum_list (take i sizes)) [0..<length sizes]) sizes jets) ! i
                  = parameters ! i"
    using i by (simp add: jet_pack_def)
qed

lemma pack_shape:
  assumes "map length parameters = sizes" "map jet_a jets = concat parameters"
  shows "map length (jet_pack (map (\<lambda>i. sum_list (take i sizes)) [0..<length sizes]) sizes jets) = sizes"
proof -
  have "map length (map (map jet_a) (jet_pack (map (\<lambda>i. sum_list (take i sizes)) [0..<length sizes]) sizes jets))
          = map length parameters"
    unfolding pack_primal[OF assms] ..
  then show ?thesis using assms(1) by (simp add: comp_def)
qed

lemma fold_copy:
  assumes "length r = n" "n \<le> length buf"
  shows "fold (\<lambda>k r. r[k := g (buf ! k)]) [0..<n] r = map g (take n buf)"
proof -
  have "m \<le> n \<Longrightarrow> fold (\<lambda>k r. r[k := g (buf ! k)]) [0..<m] r = map g (take m buf) @ drop m r" for m
  proof (induction m)
    case 0
    then show ?case by simp
  next
    case (Suc m)
    then have m: "m < length r" "m < length buf" using assms by simp_all
    have "(map g (take m buf) @ drop m r)[m := g (buf ! m)] = map g (take (Suc m) buf) @ drop (Suc m) r"
      using m by (simp add: list_update_append take_Suc_conv_app_nth upd_conv_take_nth_drop Cons_nth_drop_Suc[symmetric])
    with Suc show ?case by simp
  qed
  from this[of n] assms show ?thesis by simp
qed

lemma stride_pass_consistent:
  fixes t :: "'a::{zero,one} frame"
  assumes sds: "sds \<noteq> []" "last sds = sum_list (parameter_block_sizes cf)"
    and shape: "map length parameters = parameter_block_sizes cf"
    and lres: "length res = nat (num_residuals cf)"
    and con: "consistent_functor cf"
    and split: "[0..<n] = pre @ p # post"
    and inv: "consistent_passes cf sds parameters res n pre t"
  shows "\<exists>b t'. stride_pass cf Stride
                   (map (\<lambda>i. sum_list (take i (parameter_block_sizes cf))) [0..<length (parameter_block_sizes cf)])
                   sds n p t = Inr (b, t') \<and>
           (if b then consistent_passes cf sds parameters res n (pre @ [p]) t'
            else \<not> fst (plain (functor_ptr cf) parameters res))"
proof -
  let ?sizes = "parameter_block_sizes cf"
  let ?offs = "map (\<lambda>i. sum_list (take i ?sizes)) [0..<length ?sizes]"
  let ?nres = "nat (num_residuals cf)"
  let ?f = "functor_ptr cf"
  note sp = upt_split[OF split]
  from inv have sec: "current_derivative_section t < length sds"
    and lenj: "length (jacobians t) = length ?sizes"
    and prim: "map jet_a (input_jets t) = concat parameters"
    and lout: "length (output_jets t) = ?nres"
    and rs: "residuals t = (if n \<in> Suc ` set pre then snd (plain ?f parameters res) else res)"
    by (simp_all add: consistent_passes_def)
  have "n \<notin> Suc ` set pre" using sp by auto
  with rs have rs0: "residuals t = res" by simp
  from stride_pass_total[OF sds sec lenj, of Stride ?offs n p]
  obtain b t' jets where run: "stride_pass cf Stride ?offs sds n p t = Inr (b, t')"
    and sec': "current_derivative_section t' < length sds"
    and fr: "pass_frame t b t'"
    and keep: "Suc p \<noteq> n \<longrightarrow> residuals t' = residuals t"
    and copy: "b \<and> Suc p = n \<longrightarrow> residuals t' =
                 fold (\<lambda>k r. r[k := jet_a (output_jets t' ! k)]) [0..<?nres] (residuals t)"
    and jets: "map jet_a jets = map jet_a (input_jets t)"
    and call: "dual ?f (jet_pack ?offs ?sizes jets) (output_jets t) = (b, output_jets t')"
    by blast
  have jp: "map jet_a jets = concat parameters" using jets prim by simp
  have pk: "map (map jet_a) (jet_pack ?offs ?sizes jets) = parameters"
    by (rule pack_primal[OF shape jp])
  have sh: "map length (jet_pack ?offs ?sizes jets) = ?sizes"
    by (rule pack_shape[OF shape jp])
  from con sh lout lres
  have c1: "fst (dual ?f (jet_pack ?offs ?sizes jets) (output_jets t)) =
            fst (plain ?f (map (map jet_a) (jet_pack ?offs ?sizes jets)) res)"
    and c2: "fst (dual ?f (jet_pack ?offs ?sizes jets) (output_jets t)) \<longrightarrow>
             length (snd (dual ?f (jet_pack ?offs ?sizes jets) (output_jets t))) = ?nres \<and>
             map jet_a (snd (dual ?f (jet_pack ?offs ?sizes jets) (output_jets t)))
               = snd (plain ?f (map (map jet_a) (jet_pack ?offs ?sizes jets)) res)"
    unfolding consistent_functor_def by blast+
  from c1 have b: "b = fst (plain ?f parameters res)" unfolding call pk by simp
  show ?thesis
  proof (cases b)
    case False
    with run b show ?thesis by auto
  next
    case True
    with c2 have out: "length (output_jets t') = ?nres"
      "map jet_a (output_jets t') = snd (plain ?f parameters res)"
      unfolding call pk by simp_all
    have lenj': "length (jacobians t') = length ?sizes"
      using fr lenj map_eq_length[of "\<lambda>b. b = None" "jacobians t'" "\<lambda>b. b = None" "jacobians t"]
      by (simp add: pass_frame_def)
    have prim': "map jet_a (input_jets t') = concat parameters"
      using fr prim by (simp add: pass_frame_def)
    have rs': "residuals t' = (if n \<in> Suc ` set (pre @ [p]) then snd (plain ?f parameters res) else res)"
    proof (cases "Suc p = n")
      case eq: True
      with copy True have "residuals t' = fold (\<lambda>k r. r[k := jet_a (output_jets t' ! k)]) [0..<?nres] res"
        using rs0 by simp
      also have "\<dots> = map jet_a (take ?nres (output_jets t'))"
        by (rule fold_copy) (simp_all add: lres out(1))
      also have "\<dots> = snd (plain ?f parameters res)" using out by simp
      finally show ?thesis using eq by simp
    next
      case ne: False
      with keep rs0 have "residuals t' = res" by simp
      moreover have "n \<notin> Suc ` set (pre @ [p])" using ne \<open>n \<notin> Suc ` set pre\<close> by auto
      ultimately show ?thesis by simp
    qed
    have "consistent_passes cf sds parameters res n (pre @ [p]) t'"
      unfolding consistent_passes_def using sec' lenj' prim' out(1) rs' b True by simp
    with run True show ?thesis by auto
  qed
qed

text \<open>
  Claim C4, amended.  For a functor that keeps the function contract and buffers of the
  declared sizes, a call with a Jacobian request of any pattern returns the flag of the
  direct call of the \<^verbatim>\<open>double\<close> instance (which is the call with a null \<^verbatim>\<open>jacobians\<close>), and
  when that flag is \<^verbatim>\<open>true\<close> the residual buffer holds the same values: the residuals copied
  on the last pass are those of the direct call.  Nothing is said of the residual buffer
  of a call that returns \<^verbatim>\<open>false\<close>, nor of a functor that breaks the contract.
\<close>

theorem residuals_independent_of_request:
  fixes cf :: "'a::{zero,one} cost_function"
  assumes pos: "0 < num_residuals cf"
    and shape: "map length parameters = parameter_block_sizes cf"
    and lres: "length res = nat (num_residuals cf)"
    and len: "length jac = length (parameter_block_sizes cf)"
    and stride: "0 < Stride"
    and con: "consistent_functor cf"
  shows "\<exists>out. Evaluate Stride cf parameters res (Some jac) = Inr out \<and>
           Evaluate Stride cf parameters res None = Inr (direct cf parameters res None) \<and>
           returned out = returned (direct cf parameters res None) \<and>
           (returned out \<longrightarrow> residuals_out out = residuals_out (direct cf parameters res None))"
proof -
  let ?sizes = "parameter_block_sizes cf"
  let ?d = "discover Stride ?sizes parameters jac"
  let ?n = "num_strides_of (num_active_parameters ?d) Stride"
  let ?f = "functor_ptr cf"
  have dir: "Evaluate Stride cf parameters res None = Inr (direct cf parameters res None)"
    using pos by (simp add: Evaluate_def)
  have dr: "returned (direct cf parameters res None) = fst (plain ?f parameters res)"
    "residuals_out (direct cf parameters res None) = snd (plain ?f parameters res)"
    by (simp_all add: direct_def split: prod.splits)
  show ?thesis
  proof (cases "num_active_parameters ?d = 0")
    case True
    then have "Evaluate Stride cf parameters res (Some jac) = Inr (direct cf parameters res (Some jac))"
      using pos by (simp add: Evaluate_def)
    moreover have "returned (direct cf parameters res (Some jac)) = fst (plain ?f parameters res)"
      "residuals_out (direct cf parameters res (Some jac)) = snd (plain ?f parameters res)"
      by (simp_all add: direct_def split: prod.splits)
    ultimately show ?thesis using dir dr by simp
  next
    case False
    then have npos: "0 < ?n" using stride by (intro num_strides_pos) simp_all
    have offs: "jet_parameters ?d = map (\<lambda>i. sum_list (take i ?sizes)) [0..<length ?sizes]"
      by (rule discover_counts)
    have "\<exists>ok s'. pass_loop (stride_pass cf Stride (jet_parameters ?d) (sections ?d) ?n) [0..<?n]
                     (first_frame Stride cf res jac ?d) = Inr (ok, s') \<and>
            (if ok then consistent_passes cf (sections ?d) parameters res ?n [0..<?n] s'
             else \<not> fst (plain ?f parameters res))"
    proof (rule pass_loop_rule[where I = "consistent_passes cf (sections ?d) parameters res ?n"
            and F = "\<lambda>t. \<not> fst (plain ?f parameters res)"])
      show "consistent_passes cf (sections ?d) parameters res ?n [] (first_frame Stride cf res jac ?d)"
        using len by (simp add: consistent_passes_def first_frame_def sections_def
            discover_jets[OF shape] comp_def)
    next
      fix pre p post and t :: "'a frame"
      assume "[0..<?n] = pre @ p # post" "consistent_passes cf (sections ?d) parameters res ?n pre t"
      from stride_pass_consistent[OF sections_last shape lres con this, of Stride]
      show "\<exists>b t'. stride_pass cf Stride (jet_parameters ?d) (sections ?d) ?n p t = Inr (b, t') \<and>
              (if b then consistent_passes cf (sections ?d) parameters res ?n (pre @ [p]) t'
               else \<not> fst (plain ?f parameters res))"
        unfolding offs .
    qed
    then obtain ok s' where run: "strided Stride cf res jac ?d = Inr (ok, s')"
      and st: "if ok then consistent_passes cf (sections ?d) parameters res ?n [0..<?n] s'
               else \<not> fst (plain ?f parameters res)"
      unfolding strided_def Let_def by blast
    have ev: "Evaluate Stride cf parameters res (Some jac) =
             Inr \<lparr>returned = ok, residuals_out = residuals s', jacobians_out = Some (jacobians s'),
                  calls = invocations s',
                  cells_written = map (\<lambda>(i, off, x). (i, off)) (writes s')\<rparr>"
      using run pos False by (simp add: Evaluate_def Let_def)
    show ?thesis
    proof (cases ok)
      case True
      have "?n \<in> Suc ` set [0..<?n]" using npos by (cases ?n) auto
      with st True have "fst (plain ?f parameters res)" "residuals s' = snd (plain ?f parameters res)"
        using npos by (simp_all add: consistent_passes_def)
      with ev dir dr True show ?thesis by simp
    next
      case F: False
      with st have "\<not> fst (plain ?f parameters res)" by simp
      with ev dir dr F show ?thesis by simp
    qed
  qed
qed

lemma length_two: "length xs = 2 \<Longrightarrow> \<exists>a b. xs = [a, b]"
  by (cases xs; cases "tl xs") auto

lemma two_block_consistent: "consistent_functor two_block_cost"
  unfolding consistent_functor_def
proof (intro allI impI, elim conjE)
  fix pack :: "real Jet list list" and buf :: "real Jet list" and r :: "real list"
  assume sh: "map length pack = parameter_block_sizes two_block_cost"
    and lb: "length buf = nat (num_residuals two_block_cost)"
    and lr: "length r = nat (num_residuals two_block_cost)"
  from sh have "length pack = 2" using map_eq_length[of length pack id "[2, 2]"]
    by (simp add: two_block_cost_def)
  then obtain x y where pack: "pack = [x, y]" using length_two by blast
  with sh have "length x = 2" "length y = 2" by (simp_all add: two_block_cost_def)
  then obtain x0 x1 y0 y1 where xy: "x = [x0, x1]" "y = [y0, y1]" using length_two by blast
  from lb have "length buf = 2" by (simp add: two_block_cost_def)
  then obtain b0 b1 where buf: "buf = [b0, b1]" using length_two by blast
  from lr have "length r = 2" by (simp add: two_block_cost_def)
  then obtain r0 r1 where r: "r = [r0, r1]" using length_two by blast
  show "fst (dual (functor_ptr two_block_cost) pack buf) =
          fst (plain (functor_ptr two_block_cost) (map (map jet_a) pack) r) \<and>
        (fst (dual (functor_ptr two_block_cost) pack buf) \<longrightarrow>
           length (snd (dual (functor_ptr two_block_cost) pack buf)) = nat (num_residuals two_block_cost) \<and>
           map jet_a (snd (dual (functor_ptr two_block_cost) pack buf))
             = snd (plain (functor_ptr two_block_cost) (map (map jet_a) pack) r))"
    unfolding pack xy buf r
    by (simp add: two_block_cost_def two_block_functor_def jet_add_def jet_mul_def)
qed

theorem residuals_independent_of_request_witness:
  "\<exists>out. Evaluate 4 two_block_cost [[1, 2], [3, 4]] [0, 0] (Some [Some [0, 0, 0, 0], None]) = Inr out \<and>
         returned out \<and> returned (direct two_block_cost [[1, 2], [3, 4]] [0, 0] None) \<and>
         residuals_out out = [10, 20] \<and>
         residuals_out (direct two_block_cost [[1, 2], [3, 4]] [0, 0] None) = [10, 20]"
proof -
  have 1: "0 < num_residuals two_block_cost" by (simp add: two_block_cost_def)
  have 2: "map length [[1, 2], [3, 4 :: real]] = parameter_block_sizes two_block_cost"
    by (simp add: two_block_cost_def)
  have 3: "length [0, 0 :: real] = nat (num_residuals two_block_cost)" by (simp add: two_block_cost_def)
  have 4: "length [Some [0, 0, 0, 0 :: real], None] = length (parameter_block_sizes two_block_cost)"
    by (simp add: two_block_cost_def)
  have 5: "0 < (4 :: nat)" by simp
  have d: "direct two_block_cost [[1, 2], [3, 4]] [0, 0] None =
             \<lparr>returned = True, residuals_out = [10, 20], jacobians_out = None,
              calls = [Plain [[1, 2], [3, 4]] True], cells_written = []\<rparr>"
    by code_simp
  from residuals_independent_of_request[OF 1 2 3 4 5 two_block_consistent]
  show ?thesis unfolding d by auto
qed

subsection \<open>Positions, flags and ranks\<close>

lemma positions_snoc:
  "positions (sizes @ [s]) = positions sizes @ map (Pair (length sizes)) [0..<s]"
proof -
  have "map (\<lambda>i. map (Pair i) [0..<(sizes @ [s]) ! i]) [0..<length sizes] =
        map (\<lambda>i. map (Pair i) [0..<sizes ! i]) [0..<length sizes]"
    by (rule map_cong) (simp_all add: nth_append)
  then have eq: "concat (map (\<lambda>i. map (Pair i) [0..<(sizes @ [s]) ! i]) [0..<length sizes]) =
        positions sizes"
    unfolding positions_def by (rule arg_cong)
  have "[0..<length (sizes @ [s])] = [0..<length sizes] @ [length sizes]" by simp
  then have "positions (sizes @ [s]) =
        concat (map (\<lambda>i. map (Pair i) [0..<(sizes @ [s]) ! i]) [0..<length sizes]) @
        map (Pair (length sizes)) [0..<(sizes @ [s]) ! length sizes]"
    unfolding positions_def by (simp only: map_append concat_append list.map concat.simps append_Nil2)
  then show ?thesis unfolding eq by (simp only: nth_append_length)
qed

lemma positions_take:
  "n \<le> length sizes \<Longrightarrow> positions (take n sizes) = take (sum_list (take n sizes)) (positions sizes)"
proof (induction sizes rule: rev_induct)
  case Nil
  then show ?case by (simp add: positions_def)
next
  case (snoc s sizes)
  show ?case
  proof (cases "n = Suc (length sizes)")
    case True
    then show ?thesis by (simp add: length_positions)
  next
    case False
    with snoc.prems have n: "n \<le> length sizes" by simp
    then have "sum_list (take n sizes) \<le> sum_list sizes"
      by (metis append_take_drop_id le_add1 sum_list_append)
    with snoc.IH[OF n] n show ?thesis by (simp add: positions_snoc length_positions)
  qed
qed

lemma positions_nth:
  assumes "i < length sizes" "j < sizes ! i"
  shows "positions sizes ! (sum_list (take i sizes) + j) = (i, j)"
proof -
  have "positions (take (Suc i) sizes) = positions (take i sizes @ [sizes ! i])"
    using assms(1) by (simp add: take_Suc_conv_app_nth)
  also have "\<dots> = positions (take i sizes) @ map (Pair i) [0..<sizes ! i]"
    using assms(1) by (simp add: positions_snoc)
  finally have "positions (take (Suc i) sizes) ! (sum_list (take i sizes) + j) = (i, j)"
    using assms(2) by (simp add: nth_append length_positions)
  moreover have "sum_list (take i sizes) + j < sum_list (take (Suc i) sizes)"
    using assms by (simp add: take_Suc_conv_app_nth)
  ultimately show ?thesis
    using positions_take[of "Suc i" sizes] assms(1) by simp
qed

lemma length_request_flags [simp]: "length (request_flags sizes jac) = sum_list sizes"
  by (simp add: request_flags_def length_positions)

lemma request_flags_nth:
  assumes "i < length sizes" "j < sizes ! i"
  shows "request_flags sizes jac ! (sum_list (take i sizes) + j) = (jac ! i \<noteq> None)"
proof -
  have "sum_list (take i sizes) + j < sum_list (take (Suc i) sizes)"
    using assms by (simp add: take_Suc_conv_app_nth)
  moreover have "sum_list (take (Suc i) sizes) \<le> sum_list sizes"
    by (metis append_take_drop_id le_add1 sum_list_append)
  ultimately have "sum_list (take i sizes) + j < length (positions sizes)"
    by (simp add: length_positions)
  then show ?thesis by (simp add: request_flags_def positions_nth[OF assms])
qed

lemma rank_0 [simp]: "rank fs 0 = 0"
  by (simp add: rank_def)

lemma rank_Suc:
  "q < length fs \<Longrightarrow> rank fs (Suc q) = rank fs q + (if fs ! q then 1 else 0)"
  by (simp add: rank_def take_Suc_conv_app_nth)

lemma rank_beyond: "length fs \<le> q \<Longrightarrow> rank fs q = rank fs (length fs)"
  by (simp add: rank_def)

lemma rank_mono: "a \<le> b \<Longrightarrow> rank fs a \<le> rank fs b"
proof (induction b)
  case 0
  then show ?case by simp
next
  case (Suc b)
  show ?case
  proof (cases "a = Suc b")
    case True
    then show ?thesis by simp
  next
    case False
    with Suc have le: "rank fs a \<le> rank fs b" by simp
    show ?thesis
    proof (cases "b < length fs")
      case True
      with le show ?thesis by (simp add: rank_Suc)
    next
      case False
      then have "rank fs (Suc b) = rank fs b" by (simp add: rank_def)
      with le show ?thesis by simp
    qed
  qed
qed

lemma rank_flat:
  assumes "a \<le> b" "\<And>q. a \<le> q \<Longrightarrow> q < b \<Longrightarrow> q < length fs \<Longrightarrow> \<not> fs ! q"
  shows "rank fs b = rank fs a"
  using assms
proof (induction b)
  case 0
  then show ?case by simp
next
  case (Suc b)
  show ?case
  proof (cases "a = Suc b")
    case True
    then show ?thesis by simp
  next
    case False
    with Suc.prems have ab: "a \<le> b" by simp
    have IH: "rank fs b = rank fs a" by (rule Suc.IH[OF ab]) (use Suc.prems(2) in auto)
    show ?thesis
    proof (cases "b < length fs")
      case True
      with Suc.prems(2)[of b] ab have "\<not> fs ! b" by simp
      with True IH show ?thesis by (simp add: rank_Suc)
    next
      case False
      then have "rank fs (Suc b) = rank fs b" by (simp add: rank_def)
      with IH show ?thesis by simp
    qed
  qed
qed

lemma rank_less:
  assumes "p < q" "p < length fs" "fs ! p"
  shows "rank fs p < rank fs q"
proof -
  have "rank fs (Suc p) \<le> rank fs q" using assms(1) by (intro rank_mono) simp
  with assms(2,3) show ?thesis by (simp add: rank_Suc)
qed

lemma discover_sections:
  fixes parameters :: "'a::zero list list"
  assumes pos: "\<forall>s\<in>set sizes. 0 < s"
  shows "sections_ok (request_flags sizes jac) (sections (discover Stride sizes parameters jac))"
proof -
  let ?fs = "request_flags sizes jac"
  let ?Q = "\<lambda>n (d::'a discovery).
      d_parameter_cursor d = sum_list (take n sizes) \<and>
      sorted_wrt (<) (start_derivative_section d) \<and>
      (\<forall>s\<in>set (start_derivative_section d). s < sum_list (take n sizes) \<and> run_start ?fs s) \<and>
      (\<forall>q<sum_list (take n sizes). run_start ?fs q \<longrightarrow> q \<in> set (start_derivative_section d)) \<and>
      (in_derivative_section d \<longleftrightarrow> 0 < sum_list (take n sizes) \<and> ?fs ! (sum_list (take n sizes) - 1))"
  have "?Q (length sizes) (discover Stride sizes parameters jac)"
    unfolding discover_def
  proof (rule fold_upt_invariant[where P = ?Q])
    show "?Q 0 \<lparr>d_input_jets = replicate (sum_list sizes) (zero_jet Stride), jet_parameters = [],
             num_active_parameters = 0, start_derivative_section = [],
             in_derivative_section = False, d_parameter_cursor = 0\<rparr>"
      by simp
  next
    fix i and t :: "'a discovery"
    assume i: "i < length sizes" and Q: "?Q i t"
    define c where "c = sum_list (take i sizes)"
    define sz where "sz = sizes ! i"
    define req where "req = (jac ! i \<noteq> None)"
    define sds where "sds = start_derivative_section t"
    have sz: "0 < sz" using pos i by (simp add: sz_def)
    have c': "sum_list (take (Suc i) sizes) = c + sz"
      using i by (simp add: take_Suc_conv_app_nth c_def sz_def)
    have tot: "c + sz \<le> length ?fs"
    proof -
      have "sum_list (take (Suc i) sizes) \<le> sum_list sizes"
        by (metis append_take_drop_id le_add1 sum_list_append)
      then show ?thesis using c' by simp
    qed
    have blk: "?fs ! q = req" if "c \<le> q" "q < c + sz" for q
    proof -
      from that have "q - c < sizes ! i" by (simp add: sz_def)
      from request_flags_nth[OF i this, of jac] that show ?thesis by (simp add: c_def req_def)
    qed
    from Q have cur: "d_parameter_cursor t = c"
      and srt: "sorted_wrt (<) sds"
      and old: "\<forall>s\<in>set sds. s < c \<and> run_start ?fs s"
      and cmp: "\<forall>q<c. run_start ?fs q \<longrightarrow> q \<in> set sds"
      and ins: "in_derivative_section t \<longleftrightarrow> 0 < c \<and> ?fs ! (c - 1)"
      by (simp_all add: c_def sds_def)
    define new where "new = sds @ (if req \<and> \<not> in_derivative_section t then [c] else [])"
    have eq: "start_derivative_section (discover_block sizes parameters jac i t) = new"
      "d_parameter_cursor (discover_block sizes parameters jac i t) = c + sz"
      "in_derivative_section (discover_block sizes parameters jac i t) = req"
      by (simp_all add: discover_block_eq new_def sds_def cur req_def sz_def)
    have rs_c: "run_start ?fs c \<longleftrightarrow> req \<and> \<not> in_derivative_section t"
      using blk[of c] sz tot ins by (auto simp: run_start_def)
    have rs_in: "\<not> run_start ?fs q" if "c < q" "q < c + sz" for q
      using blk[of q] blk[of "q - 1"] that by (auto simp: run_start_def)
    have 1: "sorted_wrt (<) new"
      using srt old by (auto simp: new_def sorted_wrt_append)
    have 2: "\<forall>s\<in>set new. s < c + sz \<and> run_start ?fs s"
      using old rs_c sz by (auto simp: new_def)
    have 3: "\<forall>q<c + sz. run_start ?fs q \<longrightarrow> q \<in> set new"
    proof (intro allI impI)
      fix q assume q: "q < c + sz" "run_start ?fs q"
      consider "q < c" | "q = c" | "c < q" by linarith
      then show "q \<in> set new"
      proof cases
        case 1
        with cmp q(2) show ?thesis by (simp add: new_def)
      next
        case 2
        with rs_c q(2) show ?thesis by (simp add: new_def)
      next
        case 3
        with rs_in q show ?thesis by blast
      qed
    qed
    have 4: "req \<longleftrightarrow> 0 < c + sz \<and> ?fs ! (c + sz - 1)"
      using blk[of "c + sz - 1"] sz by simp
    show "?Q (Suc i) (discover_block sizes parameters jac i t)"
      unfolding eq c' using 1 2 3 4 by simp
  qed
  then have cur: "d_parameter_cursor (discover Stride sizes parameters jac) = sum_list sizes"
    and srt: "sorted_wrt (<) (start_derivative_section (discover Stride sizes parameters jac))"
    and old: "\<forall>s\<in>set (start_derivative_section (discover Stride sizes parameters jac)).
                 s < sum_list sizes \<and> run_start ?fs s"
    and cmp: "\<forall>q<sum_list sizes. run_start ?fs q \<longrightarrow>
                 q \<in> set (start_derivative_section (discover Stride sizes parameters jac))"
    by simp_all
  have "run_start ?fs q \<longrightarrow> q \<in> set (start_derivative_section (discover Stride sizes parameters jac))" for q
    using cmp by (auto simp: run_start_def)
  then show ?thesis
    unfolding sections_ok_def sections_def cur using srt old
    by (auto simp: sorted_wrt_append)
qed

lemma sorted_nth_less:
  "sorted_wrt (<) xs \<Longrightarrow> i < j \<Longrightarrow> j < length xs \<Longrightarrow> xs ! i < (xs ! j :: nat)"
  by (simp add: sorted_wrt_iff_nth_less)

lemma sorted_nth_le:
  assumes "sorted_wrt (<) xs" "i \<le> j" "j < length xs"
  shows "xs ! i \<le> (xs ! j :: nat)"
proof (cases "i = j")
  case True
  then show ?thesis by simp
next
  case False
  with assms sorted_nth_less[of xs i j] show ?thesis by simp
qed

lemma between_sections:
  fixes sds :: "nat list"
  assumes srt: "sorted_wrt (<) sds" and sec: "Suc sec < length sds"
    and x: "x \<in> set sds" "sds ! sec < x" "x < sds ! Suc sec"
  shows False
proof -
  from x(1) obtain k where k: "k < length sds" "sds ! k = x" by (auto simp: in_set_conv_nth)
  show False
  proof (cases "k \<le> sec")
    case True
    with sorted_nth_le[OF srt True] sec have "sds ! k \<le> sds ! sec" by simp
    with k x(2) show False by simp
  next
    case False
    then have "Suc sec \<le> k" by simp
    from sorted_nth_le[OF srt this k(1)] k x(3) show False by simp
  qed
qed

lemma cursor_step_correct:
  assumes ok: "sections_ok fs sds" and p: "p < length fs"
    and inv: "cursor_inv Stride sds fs K p cur"
  shows "\<exists>cur'. cursor_step Stride sds (fs ! p) p cur = Inr (lane_of Stride fs K p, cur') \<and>
           cursor_inv Stride sds fs K (Suc p) cur'"
proof -
  obtain sec off cnt where cur: "cur = (sec, off, cnt)" by (cases cur)
  define t where "t = sds ! sec + off"
  from ok have srt: "sorted_wrt (<) sds" and ne: "sds \<noteq> []" and lst: "last sds = length fs"
    and starts: "\<forall>s\<in>set (butlast sds). run_start fs s"
    and compl: "\<forall>q. run_start fs q \<longrightarrow> q \<in> set sds"
    by (simp_all add: sections_ok_def)
  from inv have sec: "sec < length sds"
    and run: "\<forall>q. sds ! sec \<le> q \<and> q < t \<longrightarrow> q < length fs \<and> fs ! q"
    and rk: "rank fs t = K + cnt"
    and cnt: "cnt \<le> Stride"
    and ahead: "cnt < Stride \<longrightarrow> p \<le> t"
    and seen: "\<forall>q. p \<le> q \<and> q < t \<and> q < length fs \<and> fs ! q \<longrightarrow> rank fs q < K"
    by (simp_all add: cursor_inv_def cur t_def)
  show ?thesis
  proof (cases "cnt < Stride")
    case False
    then have step: "cursor_step Stride sds (fs ! p) p cur = Inr (None, cur)"
      by (simp add: cursor_step_def cur)
    have lane: "lane_of Stride fs K p = None"
    proof (cases "p < t")
      case True
      with seen p show ?thesis by (auto simp: lane_of_def)
    next
      case F: False
      then have "rank fs t \<le> rank fs p" by (intro rank_mono) simp
      with rk False cnt show ?thesis by (auto simp: lane_of_def)
    qed
    have "cursor_inv Stride sds fs K (Suc p) cur"
      using sec run rk cnt seen False by (auto simp: cursor_inv_def cur t_def)
    with step lane show ?thesis by simp
  next
    case lt: True
    with ahead have pt: "p \<le> t" by simp
    show ?thesis
    proof (cases "p < t")
      case True
      then have step: "cursor_step Stride sds (fs ! p) p cur = Inr (None, cur)"
        using lt sec by (simp add: cursor_step_def cur t_def)
      have lane: "lane_of Stride fs K p = None"
        using seen True p by (auto simp: lane_of_def)
      have "cursor_inv Stride sds fs K (Suc p) cur"
        using sec run rk cnt seen True by (auto simp: cursor_inv_def cur t_def)
      with step lane show ?thesis by simp
    next
      case False
      with pt have eq: "t = p" by simp
      show ?thesis
      proof (cases "fs ! p")
        case True
        have step: "cursor_step Stride sds (fs ! p) p cur = Inr (Some cnt, sec, Suc off, Suc cnt)"
          using lt sec eq True by (simp add: cursor_step_def cur t_def)
        have lane: "lane_of Stride fs K p = Some cnt"
          using True rk lt eq by (simp add: lane_of_def)
        have r': "rank fs (sds ! sec + Suc off) = K + Suc cnt"
          using rk eq p True rank_Suc[of p fs] by (simp add: t_def)
        have run': "\<forall>q. sds ! sec \<le> q \<and> q < sds ! sec + Suc off \<longrightarrow> q < length fs \<and> fs ! q"
        proof (intro allI impI)
          fix q assume q: "sds ! sec \<le> q \<and> q < sds ! sec + Suc off"
          show "q < length fs \<and> fs ! q"
          proof (cases "q < t")
            case True
            with q run show ?thesis by simp
          next
            case False
            with q have "q = p" using eq by (simp add: t_def)
            with p True show ?thesis by simp
          qed
        qed
        have "cursor_inv Stride sds fs K (Suc p) (sec, Suc off, Suc cnt)"
          unfolding cursor_inv_def using sec run' r' lt eq by (auto simp: t_def)
        with step lane show ?thesis by simp
      next
        case inactive: False
        have step: "cursor_step Stride sds (fs ! p) p cur = Inr (None, Suc sec, 0, cnt)"
          using lt sec eq inactive by (simp add: cursor_step_def cur t_def)
        have lane: "lane_of Stride fs K p = None" using inactive by (simp add: lane_of_def)
        have le_p: "sds ! sec \<le> p" using eq by (simp add: t_def)
        have sec': "Suc sec < length sds"
        proof (rule ccontr)
          assume "\<not> Suc sec < length sds"
          with sec have "sec = length sds - 1" by simp
          with ne lst have "sds ! sec = length fs" by (simp add: last_conv_nth)
          with le_p p show False by simp
        qed
        define t' where "t' = sds ! Suc sec"
        have a: "p < t'"
        proof (rule ccontr)
          assume "\<not> p < t'"
          then have le: "t' \<le> p" by simp
          have lt': "sds ! sec < t'" unfolding t'_def by (rule sorted_nth_less[OF srt _ sec']) simp
          have "Suc sec \<noteq> length sds - 1"
          proof
            assume "Suc sec = length sds - 1"
            with ne lst have "t' = length fs" by (simp add: last_conv_nth t'_def)
            with le p show False by simp
          qed
          with sec' have "Suc sec < length (butlast sds)" by simp
          then have "butlast sds ! Suc sec \<in> set (butlast sds)" by (rule nth_mem)
          moreover have "butlast sds ! Suc sec = t'"
            using \<open>Suc sec < length (butlast sds)\<close> by (simp add: nth_butlast t'_def)
          ultimately have "run_start fs t'" using starts by simp
          with lt' have "\<not> fs ! (t' - 1)" by (auto simp: run_start_def)
          moreover have "sds ! sec \<le> t' - 1" "t' - 1 < t" using lt' le eq by simp_all
          ultimately show False using run by blast
        qed
        have b: "\<not> fs ! q" if "p < q" "q < t'" "q < length fs" for q
          using that
        proof (induction q rule: less_induct)
          case (less q)
          show ?case
          proof
            assume act: "fs ! q"
            have "\<not> fs ! (q - 1)"
            proof (cases "q - 1 = p")
              case True
              with inactive show ?thesis by simp
            next
              case False
              with less.prems have "p < q - 1" "q - 1 < t'" "q - 1 < length fs" "q - 1 < q" by simp_all
              with less.IH show ?thesis by blast
            qed
            with act less.prems have "run_start fs q" by (simp add: run_start_def)
            with compl have "q \<in> set sds" by simp
            from between_sections[OF srt sec' this] le_p less.prems show False by (simp add: t'_def)
          qed
        qed
        have "rank fs t' = rank fs p"
        proof (rule rank_flat)
          show "p \<le> t'" using a by simp
        next
          fix q assume "p \<le> q" "q < t'" "q < length fs"
          then show "\<not> fs ! q" using b[of q] inactive by (cases "q = p") simp_all
        qed
        with rk eq have r': "rank fs t' = K + cnt" by simp
        have "cursor_inv Stride sds fs K (Suc p) (Suc sec, 0, cnt)"
          unfolding cursor_inv_def using sec' r' cnt a b by (auto simp: t'_def)
        with step lane show ?thesis by simp
      qed
    qed
  qed
qed

lemma pass_start_cursor_inv:
  assumes "pass_start sds fs K sec off"
  shows "cursor_inv Stride sds fs K 0 (sec, off, 0)"
proof -
  from assms have sec: "sec < length sds"
    and run: "\<forall>q. sds ! sec \<le> q \<and> q < sds ! sec + off \<longrightarrow> q < length fs \<and> fs ! q"
    and rk: "rank fs (sds ! sec + off) = K"
    by (simp_all add: pass_start_def)
  have seen: "\<forall>q. 0 \<le> q \<and> q < sds ! sec + off \<and> q < length fs \<and> fs ! q \<longrightarrow> rank fs q < K"
  proof (intro allI impI)
    fix q assume q: "0 \<le> q \<and> q < sds ! sec + off \<and> q < length fs \<and> fs ! q"
    then have "rank fs q < rank fs (sds ! sec + off)" by (intro rank_less) simp_all
    with rk show "rank fs q < K" by simp
  qed
  show ?thesis
    unfolding cursor_inv_def prod.case using sec run rk seen by simp
qed

lemma cursor_inv_end:
  assumes inv: "cursor_inv Stride sds fs K (length fs) (sec, off, cnt)"
    and K: "K \<le> rank fs (length fs)"
  shows "pass_start sds fs (K + cnt) sec off" and "cnt = min Stride (rank fs (length fs) - K)"
proof -
  from inv have sec: "sec < length sds"
    and run: "\<forall>q. sds ! sec \<le> q \<and> q < sds ! sec + off \<longrightarrow> q < length fs \<and> fs ! q"
    and rk: "rank fs (sds ! sec + off) = K + cnt"
    and cnt: "cnt \<le> Stride"
    and ahead: "cnt < Stride \<longrightarrow> length fs \<le> sds ! sec + off"
    by (simp_all add: cursor_inv_def)
  show "pass_start sds fs (K + cnt) sec off"
    using sec run rk by (simp add: pass_start_def)
  have le: "rank fs (sds ! sec + off) \<le> rank fs (length fs)"
  proof (cases "sds ! sec + off \<le> length fs")
    case True
    then show ?thesis by (rule rank_mono)
  next
    case False
    then have "length fs \<le> sds ! sec + off" by simp
    from rank_beyond[OF this] show ?thesis by simp
  qed
  show "cnt = min Stride (rank fs (length fs) - K)"
  proof (cases "cnt < Stride")
    case True
    with ahead have "length fs \<le> sds ! sec + off" by simp
    from rank_beyond[OF this] have "rank fs (sds ! sec + off) = rank fs (length fs)" .
    with rk True show ?thesis by simp
  next
    case False
    with cnt have "cnt = Stride" by simp
    with rk le show ?thesis by simp
  qed
qed

lemma request_flags_position:
  assumes "q < sum_list sizes" "positions sizes ! q = (i, j)"
  shows "request_flags sizes jac ! q = (jac ! i \<noteq> None)"
proof -
  have "q < length (positions sizes)" using assms(1) by (simp only: length_positions)
  then have "request_flags sizes jac ! q = (case positions sizes ! q of (i, j) \<Rightarrow> jac ! i \<noteq> None)"
    unfolding request_flags_def by (rule nth_map)
  then show ?thesis unfolding assms(2) prod.case .
qed

lemma seed_pass_exact:
  fixes s :: "'a::{zero,one} frame"
  assumes ok: "sections_ok fs sds" and fs: "fs = request_flags sizes jac"
    and start: "pass_start sds fs K (current_derivative_section s) (current_derivative_section_cursor s)"
    and len: "length (input_jets s) = length fs"
    and width: "\<forall>x\<in>set (input_jets s). length (jet_v x) = Stride"
  shows "\<exists>s'. seed_pass Stride sds sizes jac s = Inr s' \<and>
           cursor_inv Stride sds fs K (length fs) (cursors s') \<and>
           input_jets s' = map (\<lambda>p. Jet (jet_a (input_jets s ! p)) (seed_vector Stride (lane_of Stride fs K p)))
                             [0..<length fs]"
proof -
  let ?s0 = "s\<lparr>active_parameter_count := 0, parameter_cursor := 0\<rparr>"
  let ?J = "\<lambda>p. Jet (jet_a (input_jets s ! p)) (seed_vector Stride (lane_of Stride fs K p))"
  let ?I = "\<lambda>q (t::'a frame). parameter_cursor t = q \<and> cursor_inv Stride sds fs K q (cursors t) \<and>
              length (input_jets t) = length fs \<and>
              (\<forall>p<q. input_jets t ! p = ?J p) \<and>
              (\<forall>p. q \<le> p \<and> p < length fs \<longrightarrow> input_jets t ! p = input_jets s ! p)"
  have tot: "length (positions sizes) = length fs" by (simp add: fs length_positions)
  have "\<exists>s'. for_loop (positions sizes) (\<lambda>(i, j). seed_position Stride sds jac i j) ?s0 = Inr s' \<and>
          ?I (length (positions sizes)) s'"
  proof (rule for_loop_invariant[where I = ?I])
    show "?I 0 ?s0"
      using pass_start_cursor_inv[OF start, of Stride] len by (simp add: cursors_def)
  next
    fix q and t :: "'a frame"
    assume q: "q < length (positions sizes)" and I: "?I q t"
    obtain i j where ij: "positions sizes ! q = (i, j)" by (cases "positions sizes ! q")
    from q tot have qf: "q < length fs" by simp
    have flag: "fs ! q = (jac ! i \<noteq> None)"
      unfolding fs using q ij by (intro request_flags_position) (simp_all add: length_positions)
    from I have pc: "parameter_cursor t = q" and ci: "cursor_inv Stride sds fs K q (cursors t)"
      and lt: "length (input_jets t) = length fs"
      and low: "\<forall>p<q. input_jets t ! p = ?J p"
      and high: "\<forall>p. q \<le> p \<and> p < length fs \<longrightarrow> input_jets t ! p = input_jets s ! p"
      by simp_all
    from cursor_step_correct[OF ok qf ci]
    obtain cur' where step0: "cursor_step Stride sds (fs ! q) q (cursors t)
          = Inr (lane_of Stride fs K q, cur')"
      and ci0: "cursor_inv Stride sds fs K (Suc q) cur'"
      by blast
    obtain sec off cnt where cur': "cur' = (sec, off, cnt)" by (cases cur')
    note step = step0[unfolded cur'] and ci' = ci0[unfolded cur']
    define x where "x = input_jets t ! q"
    have xs: "x = input_jets s ! q" using high qf by (simp add: x_def)
    have "x \<in> set (input_jets s)" unfolding xs using qf len by simp
    with width have wx: "length (jet_v x) = Stride" by simp
    define y where "y = (case lane_of Stride fs K q of None \<Rightarrow> setZero x | Some l \<Rightarrow> seed l (setZero x))"
    have y: "y = ?J q"
      unfolding y_def xs[symmetric]
      by (cases "lane_of Stride fs K q") (simp_all add: setZero_def seed_def seed_vector_def wx)
    define t' where "t' = t\<lparr>input_jets := (input_jets t)[q := y],
                 current_derivative_section := sec,
                 current_derivative_section_cursor := off,
                 active_parameter_count := cnt,
                 parameter_cursor := Suc q\<rparr>"
    have run: "seed_position Stride sds jac i j t = Inr t'"
      unfolding seed_position_cursor_step pc flag[symmetric] step t'_def y_def x_def
      by simp
    have "?I (Suc q) t'"
    proof (intro conjI allI impI)
      show "parameter_cursor t' = Suc q" by (simp add: t'_def)
      show "cursor_inv Stride sds fs K (Suc q) (cursors t')" using ci' by (simp add: t'_def cursors_def)
      show "length (input_jets t') = length fs" using lt by (simp add: t'_def)
    next
      fix p assume "p < Suc q"
      then show "input_jets t' ! p = ?J p"
        using low y qf lt by (cases "p = q") (simp_all add: t'_def)
    next
      fix p assume "Suc q \<le> p \<and> p < length fs"
      then show "input_jets t' ! p = input_jets s ! p"
        using high by (simp add: t'_def)
    qed
    then have "seed_position Stride sds jac i j t = Inr t' \<and> ?I (Suc q) t'"
      using run by (rule_tac conjI)
    then have "\<exists>t'. seed_position Stride sds jac i j t = Inr t' \<and> ?I (Suc q) t'"
      by (rule exI)
    then show "\<exists>t'. (case positions sizes ! q of (i, j) \<Rightarrow> seed_position Stride sds jac i j) t = Inr t' \<and>
                    ?I (Suc q) t'"
      unfolding ij prod.case .
  qed
  then obtain s' where both: "for_loop (positions sizes) (\<lambda>(i, j). seed_position Stride sds jac i j) ?s0 = Inr s' \<and>
    ?I (length (positions sizes)) s'" ..
  from both have run0: "for_loop (positions sizes) (\<lambda>(i, j). seed_position Stride sds jac i j) ?s0 = Inr s'"
    by (rule conjunct1)
  from both have I0: "?I (length (positions sizes)) s'"
    by (rule conjunct2)
  from run0 have run: "seed_pass Stride sds sizes jac s = Inr s'"
    unfolding seed_pass_def for_loop_nested .
  from I0 have ci: "cursor_inv Stride sds fs K (length fs) (cursors s')"
    and l: "length (input_jets s') = length fs"
    and n: "\<forall>p<length fs. input_jets s' ! p = ?J p"
    unfolding tot by simp_all
  have "input_jets s' = map ?J [0..<length fs]"
  proof (rule nth_equalityI)
    show "length (input_jets s') = length (map ?J [0..<length fs])" using l by simp
  next
    fix p assume "p < length (input_jets s')"
    with l n show "input_jets s' ! p = map ?J [0..<length fs] ! p" by simp
  qed
  with run ci show ?thesis by (intro exI[of _ s'] conjI)
qed

lemma apply_writes_append:
  "apply_writes (ws @ vs) js = apply_writes vs (apply_writes ws js)"
  by (simp add: apply_writes_def)

lemma apply_writes_Nil [simp]: "apply_writes [] js = js"
  by (simp add: apply_writes_def)

lemma jacobians_fold_store_cell:
  "jacobians (fold (\<lambda>k. store_cell i (f k) (g k)) ks t) =
     apply_writes (map (\<lambda>k. (i, f k, g k)) ks) (jacobians t)"
proof (induction ks arbitrary: t)
  case Nil
  show ?case by simp
next
  case (Cons k ks)
  have "jacobians (fold (\<lambda>k. store_cell i (f k) (g k)) (k # ks) t) =
        jacobians (fold (\<lambda>k. store_cell i (f k) (g k)) ks (store_cell i (f k) (g k) t))"
    by simp
  also have "\<dots> = apply_writes (map (\<lambda>k. (i, f k, g k)) ks) (jacobians (store_cell i (f k) (g k) t))"
    by (rule Cons)
  also have "\<dots> = apply_writes (map (\<lambda>k. (i, f k, g k)) (k # ks)) (jacobians t)"
    by (simp add: apply_writes_def store_cell_def)
  finally show ?case .
qed

lemma scatter_pass_exact:
  fixes s :: "'a frame"
  assumes ok: "sections_ok fs sds" and fs: "fs = request_flags sizes jac"
    and start: "pass_start sds fs K (current_derivative_section s) (current_derivative_section_cursor s)"
    and pat: "map (\<lambda>b. b = None) (jacobians s) = map (\<lambda>b. b = None) jac"
    and lenj: "length jac = length sizes"
  shows "\<exists>s'. scatter_pass Stride sds sizes nres s = Inr s' \<and>
           cursor_inv Stride sds fs K (length fs) (cursors s') \<and>
           writes s' = writes s @ pass_cells Stride sizes fs nres K (output_jets s) \<and>
           jacobians s' = apply_writes (pass_cells Stride sizes fs nres K (output_jets s)) (jacobians s)"
proof -
  let ?s0 = "s\<lparr>active_parameter_count := 0, parameter_cursor := 0\<rparr>"
  let ?C = "position_cells Stride sizes fs nres K (output_jets s)"
  let ?I = "\<lambda>q (t::'a frame). parameter_cursor t = q \<and> cursor_inv Stride sds fs K q (cursors t) \<and>
              output_jets t = output_jets s \<and>
              map (\<lambda>b. b = None) (jacobians t) = map (\<lambda>b. b = None) jac \<and>
              writes t = writes s @ concat (map ?C [0..<q]) \<and>
              jacobians t = apply_writes (concat (map ?C [0..<q])) (jacobians s)"
  have tot: "length (positions sizes) = length fs" by (simp add: fs length_positions)
  have "\<exists>s'. for_loop (positions sizes) (\<lambda>(i, j). scatter_position Stride sds sizes nres i j) ?s0 = Inr s' \<and>
          ?I (length (positions sizes)) s'"
  proof (rule for_loop_invariant[where I = ?I])
    show "?I 0 ?s0"
      using pass_start_cursor_inv[OF start, of Stride] pat by (simp add: cursors_def)
  next
    fix q and t :: "'a frame"
    assume q: "q < length (positions sizes)" and I: "?I q t"
    obtain i j where ij: "positions sizes ! q = (i, j)" by (cases "positions sizes ! q")
    from q tot have qf: "q < length fs" by simp
    have "(i, j) \<in> set (positions sizes)" using q ij by (metis nth_mem)
    then have il: "i < length jac" using positions_mem[of i j sizes] lenj by simp
    have flag0: "fs ! q = (jac ! i \<noteq> None)"
      unfolding fs using q ij by (intro request_flags_position) (simp_all add: length_positions)
    from I have pc: "parameter_cursor t = q" and ci: "cursor_inv Stride sds fs K q (cursors t)"
      and out: "output_jets t = output_jets s"
      and pt: "map (\<lambda>b. b = None) (jacobians t) = map (\<lambda>b. b = None) jac"
      and wr: "writes t = writes s @ concat (map ?C [0..<q])"
      and jb: "jacobians t = apply_writes (concat (map ?C [0..<q])) (jacobians s)"
      by blast+
    have flag: "fs ! q = (jacobians t ! i \<noteq> None)"
      using null_pattern_nth[OF pt il] flag0 by simp
    from cursor_step_correct[OF ok qf ci]
    obtain cur' where step0: "cursor_step Stride sds (fs ! q) q (cursors t)
          = Inr (lane_of Stride fs K q, cur')"
      and ci0: "cursor_inv Stride sds fs K (Suc q) cur'"
      by blast
    obtain sec off cnt where cur': "cur' = (sec, off, cnt)" by (cases cur')
    note step = step0[unfolded cur'] and ci' = ci0[unfolded cur']
    define u where "u = (case lane_of Stride fs K q of None \<Rightarrow> t
                | Some l \<Rightarrow> fold (\<lambda>k. store_cell i (k * (sizes ! i) + j)
                                          (jet_v (output_jets t ! k) ! l)) [0..<nres] t)"
    define t' where "t' = u\<lparr>current_derivative_section := sec,
                  current_derivative_section_cursor := off,
                  active_parameter_count := cnt,
                  parameter_cursor := Suc q\<rparr>"
    have run: "scatter_position Stride sds sizes nres i j t = Inr t'"
      unfolding scatter_position_cursor_step pc flag[symmetric] step t'_def u_def
      by simp
    have Cq: "?C q = (case lane_of Stride fs K q of None \<Rightarrow> []
                      | Some l \<Rightarrow> map (\<lambda>k. (i, k * sizes ! i + j, jet_v (output_jets s ! k) ! l)) [0..<nres])"
      unfolding position_cells_def ij fst_conv snd_conv ..
    have u1: "output_jets u = output_jets s"
      unfolding u_def using out by (cases "lane_of Stride fs K q") (simp_all add: fold_store_cell)
    have u2: "map (\<lambda>b. b = None) (jacobians u) = map (\<lambda>b. b = None) jac"
      unfolding u_def using pt
      by (cases "lane_of Stride fs K q") (simp_all add: fold_store_cell null_pattern_update)
    have u3: "writes u = writes t @ ?C q"
      unfolding u_def Cq out by (cases "lane_of Stride fs K q") (simp_all add: fold_store_cell)
    have u4: "jacobians u = apply_writes (?C q) (jacobians t)"
      unfolding u_def Cq out
      by (cases "lane_of Stride fs K q") (simp_all add: jacobians_fold_store_cell)
    have "?I (Suc q) t'"
    proof (intro conjI)
      show "parameter_cursor t' = Suc q" by (simp add: t'_def)
      show "cursor_inv Stride sds fs K (Suc q) (cursors t')" using ci' by (simp add: t'_def cursors_def)
      show "output_jets t' = output_jets s" using u1 by (simp add: t'_def)
      show "map (\<lambda>b. b = None) (jacobians t') = map (\<lambda>b. b = None) jac" using u2 by (simp add: t'_def)
      show "writes t' = writes s @ concat (map ?C [0..<Suc q])"
        using u3 wr by (simp add: t'_def)
      show "jacobians t' = apply_writes (concat (map ?C [0..<Suc q])) (jacobians s)"
        using u4 jb by (simp add: t'_def apply_writes_append)
    qed
    then have "scatter_position Stride sds sizes nres i j t = Inr t' \<and> ?I (Suc q) t'"
      using run by (rule_tac conjI)
    then have "\<exists>t'. scatter_position Stride sds sizes nres i j t = Inr t' \<and> ?I (Suc q) t'"
      by (rule exI)
    then show "\<exists>t'. (case positions sizes ! q of (i, j) \<Rightarrow> scatter_position Stride sds sizes nres i j) t = Inr t' \<and>
                    ?I (Suc q) t'"
      unfolding ij prod.case .
  qed
  then obtain s' where both: "for_loop (positions sizes) (\<lambda>(i, j). scatter_position Stride sds sizes nres i j) ?s0 = Inr s' \<and>
    ?I (length (positions sizes)) s'" ..
  from both have run0: "for_loop (positions sizes) (\<lambda>(i, j). scatter_position Stride sds sizes nres i j) ?s0 = Inr s'"
    by (rule conjunct1)
  from both have I0: "?I (length (positions sizes)) s'"
    by (rule conjunct2)
  from run0 have run: "scatter_pass Stride sds sizes nres s = Inr s'"
    unfolding scatter_pass_def for_loop_nested .
  from I0 have "cursor_inv Stride sds fs K (length fs) (cursors s')"
    "writes s' = writes s @ pass_cells Stride sizes fs nres K (output_jets s)"
    "jacobians s' = apply_writes (pass_cells Stride sizes fs nres K (output_jets s)) (jacobians s)"
    unfolding tot pass_cells_def by blast+
  with run show ?thesis by (intro exI[of _ s'] conjI)
qed

lemma length_seeded [simp]: "length (seeded Stride fs xs K) = length fs"
  by (simp add: seeded_def)

lemma length_seed_vector [simp]: "length (seed_vector Stride lane :: 'a::{zero,one} list) = Stride"
  by (cases lane) (simp_all add: seed_vector_def)

lemma seeded_width: "\<forall>x\<in>set (seeded Stride fs xs K). length (jet_v x) = Stride"
  by (auto simp: seeded_def)

lemma seeded_primal: "length xs = length fs \<Longrightarrow> map jet_a (seeded Stride fs xs K) = xs"
  by (rule nth_equalityI) (simp_all add: seeded_def)

lemma stride_pass_exact:
  fixes t :: "'a::{zero,one} frame"
  assumes ok: "sections_ok fs sds" and fs: "fs = request_flags (parameter_block_sizes cf) jac"
    and lenj: "length jac = length (parameter_block_sizes cf)"
    and start: "pass_start sds fs K (current_derivative_section t) (current_derivative_section_cursor t)"
    and pat: "map (\<lambda>b. b = None) (jacobians t) = map (\<lambda>b. b = None) jac"
    and len: "length (input_jets t) = length fs"
    and width: "\<forall>x\<in>set (input_jets t). length (jet_v x) = Stride"
    and K: "K \<le> rank fs (length fs)"
  shows "\<exists>b t'. stride_pass cf Stride offsets sds n pass t = Inr (b, t') \<and>
           dual (functor_ptr cf)
             (jet_pack offsets (parameter_block_sizes cf) (seeded Stride fs (map jet_a (input_jets t)) K))
             (output_jets t) = (b, output_jets t') \<and>
           invocations t' = invocations t @ [Dual (seeded Stride fs (map jet_a (input_jets t)) K) b] \<and>
           input_jets t' = seeded Stride fs (map jet_a (input_jets t)) K \<and>
           (if b
            then writes t' = writes t @
                   pass_cells Stride (parameter_block_sizes cf) fs (nat (num_residuals cf)) K (output_jets t') \<and>
                 jacobians t' =
                   apply_writes (pass_cells Stride (parameter_block_sizes cf) fs (nat (num_residuals cf)) K
                                   (output_jets t')) (jacobians t) \<and>
                 pass_start sds fs (K + min Stride (rank fs (length fs) - K))
                   (current_derivative_section t') (current_derivative_section_cursor t')
            else writes t' = writes t \<and> jacobians t' = jacobians t)"
proof -
  let ?sizes = "parameter_block_sizes cf"
  let ?nres = "nat (num_residuals cf)"
  let ?J = "seeded Stride fs (map jet_a (input_jets t)) K"
  have pat0: "jacobians t = jacobians t" ..
  have fs': "fs = request_flags ?sizes (jacobians t)"
  proof -
    have "request_flags ?sizes (jacobians t) = request_flags ?sizes jac"
      unfolding request_flags_def
    proof (rule map_cong[OF refl])
      fix x assume "x \<in> set (positions ?sizes)"
      then have "fst x < length jac" using positions_mem[of "fst x" "snd x" ?sizes] lenj by simp
      from null_pattern_nth[OF pat this]
      show "(case x of (i, j) \<Rightarrow> jacobians t ! i \<noteq> None) = (case x of (i, j) \<Rightarrow> jac ! i \<noteq> None)"
        by (cases x) auto
    qed
    with fs show ?thesis by simp
  qed
  from seed_pass_exact[OF ok fs' start len width]
  obtain s1 where s1: "seed_pass Stride sds ?sizes (jacobians t) t = Inr s1"
    and j1: "input_jets s1 = map (\<lambda>p. Jet (jet_a (input_jets t ! p)) (seed_vector Stride (lane_of Stride fs K p)))
                               [0..<length fs]"
    by blast
  have J: "input_jets s1 = ?J"
    unfolding j1 seeded_def using len by simp
  have f1: "seed_frame t s1" by (rule seed_pass_frame[OF s1])
  obtain b out where call: "dual (functor_ptr cf) (jet_pack offsets ?sizes ?J) (output_jets t) = (b, out)"
    by (cases "dual (functor_ptr cf) (jet_pack offsets ?sizes ?J) (output_jets t)")
  have call1: "dual (functor_ptr cf) (jet_pack offsets ?sizes (input_jets s1)) (output_jets s1) = (b, out)"
    using call f1 J by (simp add: seed_frame_def)
  define s2 where "s2 = s1\<lparr>output_jets := out, invocations := invocations s1 @ [Dual (input_jets s1) b]\<rparr>"
  show ?thesis
  proof (cases b)
    case False
    have "stride_pass cf Stride offsets sds n pass t = Inr (False, s2)"
      by (simp add: stride_pass_def Let_def s1 call1 s2_def False)
    moreover have "output_jets s2 = out" "invocations s2 = invocations t @ [Dual ?J False]"
      "input_jets s2 = ?J" "writes s2 = writes t" "jacobians s2 = jacobians t"
      using f1 J False by (simp_all add: s2_def seed_frame_def)
    ultimately show ?thesis using call False
      by (intro exI[of _ False] exI[of _ s2]) simp
  next
    case True
    define s2r where "s2r = s2\<lparr>current_derivative_section := current_derivative_section t,
        current_derivative_section_cursor := current_derivative_section_cursor t\<rparr>"
    have start2: "pass_start sds fs K (current_derivative_section s2r) (current_derivative_section_cursor s2r)"
      using start by (simp add: s2r_def)
    have pat2: "map (\<lambda>b. b = None) (jacobians s2r) = map (\<lambda>b. b = None) jac"
      using pat f1 by (simp add: s2r_def s2_def seed_frame_def)
    from scatter_pass_exact[OF ok fs start2 pat2 lenj, of Stride ?nres]
    obtain s3 where s3: "scatter_pass Stride sds ?sizes ?nres s2r = Inr s3"
      and c3: "cursor_inv Stride sds fs K (length fs) (cursors s3)"
      and w3: "writes s3 = writes s2r @ pass_cells Stride ?sizes fs ?nres K (output_jets s2r)"
      and jb3: "jacobians s3 = apply_writes (pass_cells Stride ?sizes fs ?nres K (output_jets s2r)) (jacobians s2r)"
      by blast
    have "length (jacobians s2r) = length ?sizes"
      using map_eq_length[OF pat2] lenj by simp
    from scatter_pass_frame[OF s3 this] have f3: "scatter_frame s2r s3" .
    from cursor_inv_end[OF c3[unfolded cursors_def] K]
    have st3: "pass_start sds fs (K + active_parameter_count s3)
                 (current_derivative_section s3) (current_derivative_section_cursor s3)"
      and cnt: "active_parameter_count s3 = min Stride (rank fs (length fs) - K)"
      by simp_all
    define s4 where "s4 = (if Suc pass = n then copy_residuals ?nres s3 else s3)"
    have s3': "scatter_pass Stride sds ?sizes ?nres
                 (s1\<lparr>output_jets := out, invocations := invocations s1 @ [Dual (input_jets s1) True],
                     current_derivative_section := current_derivative_section t,
                     current_derivative_section_cursor := current_derivative_section_cursor t\<rparr>) = Inr s3"
      using s3 by (simp add: s2r_def s2_def True)
    have run: "stride_pass cf Stride offsets sds n pass t = Inr (True, s4)"
      by (simp add: stride_pass_def Let_def s1 call1 True s3' s4_def)
    have o4: "output_jets s4 = out"
      using f3 by (simp add: s4_def copy_residuals_eq scatter_frame_def s2r_def s2_def)
    have i4: "invocations s4 = invocations t @ [Dual ?J True]" "input_jets s4 = ?J"
      using f1 f3 J True by (simp_all add: s4_def copy_residuals_eq scatter_frame_def seed_frame_def s2r_def s2_def)
    have w4: "writes s4 = writes t @ pass_cells Stride ?sizes fs ?nres K out"
      using w3 f1 by (simp add: s4_def copy_residuals_eq seed_frame_def s2r_def s2_def)
    have j4: "jacobians s4 = apply_writes (pass_cells Stride ?sizes fs ?nres K out) (jacobians t)"
      using jb3 f1 by (simp add: s4_def copy_residuals_eq seed_frame_def s2r_def s2_def)
    have p4: "pass_start sds fs (K + min Stride (rank fs (length fs) - K))
                (current_derivative_section s4) (current_derivative_section_cursor s4)"
      using st3 cnt by (simp add: s4_def copy_residuals_eq)
    show ?thesis
      using run call True o4 i4 w4 j4 p4
      by (intro exI[of _ True] exI[of _ s4]) simp
  qed
qed

lemma rank_block:
  assumes "\<And>j. j < m \<Longrightarrow> a + j < length fs \<and> fs ! (a + j) = b"
  shows "rank fs (a + m) = rank fs a + (if b then m else 0)"
  using assms
proof (induction m)
  case 0
  then show ?case by simp
next
  case (Suc m)
  have "a + m < length fs" "fs ! (a + m) = b" using Suc.prems[of m] by simp_all
  then have "rank fs (Suc (a + m)) = rank fs (a + m) + (if b then 1 else 0)" by (simp add: rank_Suc)
  moreover have "rank fs (a + m) = rank fs a + (if b then m else 0)"
    by (rule Suc.IH) (use Suc.prems in simp)
  ultimately show ?case by simp
qed

lemma rank_requested:
  assumes "n \<le> length sizes"
  shows "rank (request_flags sizes jac) (sum_list (take n sizes)) = requested_sizes sizes jac n"
  using assms
proof (induction n)
  case 0
  then show ?case by (simp add: requested_sizes_def)
next
  case (Suc n)
  then have n: "n < length sizes" by simp
  let ?a = "sum_list (take n sizes)"
  have blk: "\<And>j. j < sizes ! n \<Longrightarrow> ?a + j < length (request_flags sizes jac) \<and>
                 request_flags sizes jac ! (?a + j) = (jac ! n \<noteq> None)"
  proof -
    fix j assume j: "j < sizes ! n"
    have "?a + j < sum_list (take (Suc n) sizes)" using n j by (simp add: take_Suc_conv_app_nth)
    moreover have "sum_list (take (Suc n) sizes) \<le> sum_list sizes"
      by (metis append_take_drop_id le_add1 sum_list_append)
    ultimately show "?a + j < length (request_flags sizes jac) \<and>
                 request_flags sizes jac ! (?a + j) = (jac ! n \<noteq> None)"
      using request_flags_nth[OF n j, of jac] by simp
  qed
  have "rank (request_flags sizes jac) (?a + sizes ! n)
          = rank (request_flags sizes jac) ?a + (if jac ! n \<noteq> None then sizes ! n else 0)"
    by (rule rank_block) (rule blk)
  moreover have "rank (request_flags sizes jac) ?a = requested_sizes sizes jac n"
    using Suc by simp
  ultimately show ?case using n by (simp add: take_Suc_conv_app_nth requested_sizes_def)
qed

lemma discover_active:
  fixes parameters :: "'a::zero list list"
  shows "num_active_parameters (discover Stride sizes parameters jac)
           = rank (request_flags sizes jac) (length (request_flags sizes jac))"
  using rank_requested[of "length sizes" sizes jac] by (simp add: discover_counts)

lemma apply_writes_pattern:
  "map (\<lambda>b. b = None) (apply_writes ws js) = map (\<lambda>b. b = None) js"
proof (induction ws arbitrary: js)
  case Nil
  then show ?case by simp
next
  case (Cons w ws)
  obtain i off x where w: "w = (i, off, x)" by (cases w)
  have "apply_writes (w # ws) js = apply_writes ws (js[i := map_option (\<lambda>b. b[off := x]) (js ! i)])"
    by (simp add: apply_writes_def w)
  moreover have "map (\<lambda>b. b = None) (js[i := map_option (\<lambda>b. b[off := x]) (js ! i)]) = map (\<lambda>b. b = None) js"
    by (cases "i < length js") (auto simp: nth_list_update list_update_beyond intro!: nth_equalityI split: if_splits)
  ultimately show ?case using Cons.IH by simp
qed

lemma sections_first:
  assumes ok: "sections_ok fs sds"
  shows "pass_start sds fs 0 0 0"
proof -
  from ok have srt: "sorted_wrt (<) sds" and ne: "sds \<noteq> []"
    and all: "\<And>q. run_start fs q \<Longrightarrow> q \<in> set sds"
    by (simp_all add: sections_ok_def)
  have none: "\<not> fs ! q" if "q < sds ! 0" "q < length fs" for q
  proof
    assume a: "fs ! q"
    define q0 where "q0 = (LEAST r. r < length fs \<and> fs ! r)"
    have q0: "q0 < length fs \<and> fs ! q0" unfolding q0_def
      by (rule LeastI[of "\<lambda>r. r < length fs \<and> fs ! r" q]) (use that a in simp)
    have le: "q0 \<le> q" unfolding q0_def by (rule Least_le) (use that a in simp)
    have "q0 = 0 \<or> \<not> fs ! (q0 - 1)"
    proof (cases q0)
      case 0
      then show ?thesis by simp
    next
      case (Suc r)
      have "\<not> (r < length fs \<and> fs ! r)"
      proof
        assume "r < length fs \<and> fs ! r"
        then have "q0 \<le> r" unfolding q0_def by (rule Least_le)
        with Suc show False by simp
      qed
      with q0 Suc show ?thesis by simp
    qed
    with q0 have "run_start fs q0" by (simp add: run_start_def)
    then have "q0 \<in> set sds" by (rule all)
    then obtain k where k: "k < length sds" "sds ! k = q0" by (auto simp: in_set_conv_nth)
    have "sds ! 0 \<le> sds ! k" using srt k(1)
      by (cases k) (auto simp: sorted_wrt_iff_nth_less less_imp_le)
    with k le that show False by simp
  qed
  have "rank fs (sds ! 0) = rank fs 0"
    by (rule rank_flat) (use none in auto)
  with ne show ?thesis by (auto simp: pass_start_def)
qed

lemma pass_offset_Suc:
  "pass_offset Stride fs r + min Stride (rank fs (length fs) - pass_offset Stride fs r)
     = pass_offset Stride fs (Suc r)"
  by (auto simp: pass_offset_def min_def)

lemma stride_pass_step:
  fixes t :: "'a::{zero,one} frame"
  assumes ok: "sections_ok fs sds" and fs: "fs = request_flags (parameter_block_sizes cf) jac"
    and lenj: "length jac = length (parameter_block_sizes cf)"
    and inv: "exact_passes cf Stride offsets sds fs jac xs zeros r t outs"
  shows "\<exists>b t'. stride_pass cf Stride offsets sds n pass t = Inr (b, t') \<and>
           (if b then \<exists>outs'. exact_passes cf Stride offsets sds fs jac xs zeros (Suc r) t' outs'
            else \<exists>outs'. failed_pass cf Stride offsets fs jac xs zeros r t' outs')"
proof -
  let ?sizes = "parameter_block_sizes cf"
  let ?nres = "nat (num_residuals cf)"
  let ?K = "pass_offset Stride fs"
  let ?cells = "\<lambda>os k. pass_cells Stride ?sizes fs ?nres (?K k) (os ! k)"
  from inv have lo: "length outs = r"
    and prev: "\<forall>k<r. dual (functor_ptr cf) (jet_pack offsets ?sizes (seeded Stride fs xs (?K k)))
                       ((zeros # outs) ! k) = (True, outs ! k)"
    and oj: "output_jets t = (zeros # outs) ! r"
    and iv: "invocations t = map (\<lambda>k. Dual (seeded Stride fs xs (?K k)) True) [0..<r]"
    and wr: "writes t = concat (map (?cells outs) [0..<r])"
    and jb: "jacobians t = apply_writes (writes t) jac"
    and st: "pass_start sds fs (?K r) (current_derivative_section t) (current_derivative_section_cursor t)"
    and len: "length (input_jets t) = length fs"
    and wd: "\<forall>x\<in>set (input_jets t). length (jet_v x) = Stride"
    and pr: "map jet_a (input_jets t) = xs"
    unfolding exact_passes_def by blast+
  have pat: "map (\<lambda>b. b = None) (jacobians t) = map (\<lambda>b. b = None) jac"
    unfolding jb by (rule apply_writes_pattern)
  have K: "?K r \<le> rank fs (length fs)" by (simp add: pass_offset_def)
  from stride_pass_exact[OF ok fs lenj st pat len wd K, of offsets n pass]
  obtain b t' where run: "stride_pass cf Stride offsets sds n pass t = Inr (b, t')"
    and call: "dual (functor_ptr cf) (jet_pack offsets ?sizes (seeded Stride fs xs (?K r))) (output_jets t)
                 = (b, output_jets t')"
    and iv': "invocations t' = invocations t @ [Dual (seeded Stride fs xs (?K r)) b]"
    and ij': "input_jets t' = seeded Stride fs xs (?K r)"
    and rest: "if b
            then writes t' = writes t @ pass_cells Stride ?sizes fs ?nres (?K r) (output_jets t') \<and>
                 jacobians t' = apply_writes (pass_cells Stride ?sizes fs ?nres (?K r) (output_jets t')) (jacobians t) \<and>
                 pass_start sds fs (?K r + min Stride (rank fs (length fs) - ?K r))
                   (current_derivative_section t') (current_derivative_section_cursor t')
            else writes t' = writes t \<and> jacobians t' = jacobians t"
    unfolding pr by blast
  have lx: "length xs = length fs" using pr len by (metis length_map)
  show ?thesis
  proof (cases b)
    case False
    have "failed_pass cf Stride offsets fs jac xs zeros r t' outs"
      unfolding failed_pass_def
      using lo prev call oj iv iv' rest wr jb False by simp
    with run False show ?thesis by auto
  next
    case True
    let ?outs = "outs @ [output_jets t']"
    have nth_old: "\<And>k. k < r \<Longrightarrow> ?outs ! k = outs ! k" using lo by (simp add: nth_append)
    have nth_old': "\<And>k. k \<le> r \<Longrightarrow> (zeros # ?outs) ! k = (zeros # outs) ! k"
      using lo by (simp add: nth_append nth_Cons split: nat.splits)
    have nth_new: "?outs ! r = output_jets t'" using lo by (simp add: nth_append)
    have a: "length ?outs = Suc r" using lo by simp
    have b: "\<forall>k<Suc r. dual (functor_ptr cf) (jet_pack offsets ?sizes (seeded Stride fs xs (?K k)))
                       ((zeros # ?outs) ! k) = (True, ?outs ! k)"
    proof (intro allI impI)
      fix k assume "k < Suc r"
      then consider "k < r" | "k = r" by linarith
      then show "dual (functor_ptr cf) (jet_pack offsets ?sizes (seeded Stride fs xs (?K k)))
                       ((zeros # ?outs) ! k) = (True, ?outs ! k)"
      proof cases
        case 1
        then show ?thesis using prev nth_old[OF 1] nth_old'[of k] by simp
      next
        case 2
        show ?thesis unfolding 2 nth_new nth_old'[OF order_refl] using call oj True by simp
      qed
    qed
    have c: "output_jets t' = (zeros # ?outs) ! Suc r" using lo by (simp add: nth_append)
    have d: "invocations t' = map (\<lambda>k. Dual (seeded Stride fs xs (?K k)) True) [0..<Suc r]"
      using iv iv' True by simp
    have meq: "map (?cells ?outs) [0..<r] = map (?cells outs) [0..<r]"
      by (rule map_cong[OF refl]) (simp add: nth_old)
    have "writes t' = concat (map (?cells outs) [0..<r])
                        @ pass_cells Stride ?sizes fs ?nres (?K r) (output_jets t')"
      using rest True wr by simp
    also have "\<dots> = concat (map (?cells ?outs) [0..<r]) @ ?cells ?outs r"
      unfolding meq nth_new ..
    also have "\<dots> = concat (map (?cells ?outs) [0..<Suc r])" by simp
    finally have e: "writes t' = concat (map (?cells ?outs) [0..<Suc r])" .
    have f: "jacobians t' = apply_writes (writes t') jac"
      using rest True jb by (simp add: apply_writes_append)
    have g: "pass_start sds fs (?K (Suc r)) (current_derivative_section t') (current_derivative_section_cursor t')"
      using rest True by (simp only: pass_offset_Suc if_True)
    have h: "length (input_jets t') = length fs" "\<forall>x\<in>set (input_jets t'). length (jet_v x) = Stride"
      "map jet_a (input_jets t') = xs"
      unfolding ij' using seeded_width[of Stride fs xs] seeded_primal[OF lx] by simp_all
    have "exact_passes cf Stride offsets sds fs jac xs zeros (Suc r) t' ?outs"
      unfolding exact_passes_def using a b c d e f g h by blast
    with run True show ?thesis by auto
  qed
qed

lemma strided_exact:
  fixes cf :: "'a::{zero,one} cost_function" and parameters Stride
  assumes pos: "\<forall>s\<in>set (parameter_block_sizes cf). 0 < s"
    and shape: "map length parameters = parameter_block_sizes cf"
    and lenj: "length jac = length (parameter_block_sizes cf)"
  defines "d \<equiv> discover Stride (parameter_block_sizes cf) parameters jac"
  defines "fs \<equiv> request_flags (parameter_block_sizes cf) jac"
  defines "n \<equiv> num_strides_of (num_active_parameters d) Stride"
  defines "zeros \<equiv> replicate (nat (num_residuals cf)) (zero_jet Stride)"
  shows "\<exists>ok s'. strided Stride cf res jac d = Inr (ok, s') \<and>
           (if ok
            then \<exists>outs. exact_passes cf Stride (jet_parameters d) (sections d) fs jac
                          (concat parameters) zeros n s' outs
            else \<exists>r outs. r < n \<and>
                   failed_pass cf Stride (jet_parameters d) fs jac (concat parameters) zeros r s' outs)"
proof -
  let ?I = "\<lambda>(pre::nat list) t. \<exists>outs. exact_passes cf Stride (jet_parameters d) (sections d) fs jac
                          (concat parameters) zeros (length pre) t outs"
  let ?F = "\<lambda>t. \<exists>r outs. r < n \<and>
                   failed_pass cf Stride (jet_parameters d) fs jac (concat parameters) zeros r t outs"
  have "\<exists>ok s'. pass_loop (stride_pass cf Stride (jet_parameters d) (sections d) n) [0..<n]
                    (first_frame Stride cf res jac d) = Inr (ok, s') \<and>
                 (if ok then ?I [0..<n] s' else ?F s')"
  proof (rule pass_loop_rule[where I = ?I and F = ?F])
  have ok: "sections_ok fs (sections d)"
    unfolding fs_def d_def by (rule discover_sections[OF pos])
  have jets: "d_input_jets d = map (\<lambda>x. Jet x (replicate Stride 0)) (concat parameters)"
    unfolding d_def by (rule discover_jets[OF shape])
  have lfs: "length fs = sum_list (parameter_block_sizes cf)" by (simp add: fs_def)
  have lp: "length (concat parameters) = sum_list (parameter_block_sizes cf)"
    using shape by (simp add: length_concat)
  have "exact_passes cf Stride (jet_parameters d) (sections d) fs jac (concat parameters) zeros 0
          (first_frame Stride cf res jac d) []"
    unfolding exact_passes_def
    using sections_first[OF ok] jets lfs lp
    by (simp add: first_frame_def zeros_def pass_offset_def comp_def)
  then show "?I [] (first_frame Stride cf res jac d)" by auto
next
  fix pre p post and t :: "'a frame"
  assume split: "[0..<n] = pre @ p # post" and "?I pre t"
  then obtain outs where inv: "exact_passes cf Stride (jet_parameters d) (sections d) fs jac
                          (concat parameters) zeros (length pre) t outs" by blast
  have ok: "sections_ok fs (sections d)"
    unfolding fs_def d_def by (rule discover_sections[OF pos])
  have "length pre < length [0..<n]" unfolding split by simp
  then have r: "length pre < n" by simp
  have fse: "fs = request_flags (parameter_block_sizes cf) jac" by (simp add: fs_def)
  from stride_pass_step[OF ok fse lenj inv, of n p]
  obtain b t' where run: "stride_pass cf Stride (jet_parameters d) (sections d) n p t = Inr (b, t')"
    and res: "if b then \<exists>outs'. exact_passes cf Stride (jet_parameters d) (sections d) fs jac
                              (concat parameters) zeros (Suc (length pre)) t' outs'
            else \<exists>outs'. failed_pass cf Stride (jet_parameters d) fs jac (concat parameters) zeros
                              (length pre) t' outs'"
    by blast
  show "\<exists>b t'. stride_pass cf Stride (jet_parameters d) (sections d) n p t = Inr (b, t') \<and>
           (if b then ?I (pre @ [p]) t' else ?F t')"
    using run res r by (cases b) auto
  qed
  then show ?thesis unfolding strided_def Let_def n_def[symmetric] length_upt diff_zero .
qed

lemma div_eq_iff_range:
  fixes x r S :: nat
  assumes "0 < S"
  shows "(x div S = r) = (r * S \<le> x \<and> x < r * S + S)"
proof
  assume "x div S = r"
  then show "r * S \<le> x \<and> x < r * S + S"
    using assms div_times_less_eq_dividend[of x S] dividend_less_div_times[of S x] by auto
next
  assume "r * S \<le> x \<and> x < r * S + S"
  then show "x div S = r"
    by (intro div_nat_eqI) (simp_all add: mult.commute)
qed

lemma rank_below_total:
  assumes "p < length fs" "fs ! p"
  shows "rank fs p < rank fs (length fs)"
  using rank_less[OF assms(1) assms(1) assms(2)] .

lemma lane_of_pass:
  assumes S: "0 < Stride" and p: "p < length fs"
  shows "lane_of Stride fs (pass_offset Stride fs r) p =
           (if fs ! p \<and> rank fs p div Stride = r then Some (rank fs p mod Stride) else None)"
proof (cases "fs ! p")
  case False
  then show ?thesis by (simp add: lane_of_def)
next
  case True
  have lt: "rank fs p < rank fs (length fs)" by (rule rank_below_total[OF p True])
  show ?thesis
  proof (cases "r * Stride \<le> rank fs (length fs)")
    case le: True
    then have K: "pass_offset Stride fs r = r * Stride" by (simp add: pass_offset_def)
    have "rank fs p - r * Stride = rank fs p mod Stride" if "rank fs p div Stride = r"
      using minus_div_mult_eq_mod[of "rank fs p" Stride] that by simp
    then show ?thesis
      unfolding lane_of_def K using True div_eq_iff_range[OF S, of "rank fs p" r] by auto
  next
    case gt: False
    then have K: "pass_offset Stride fs r = rank fs (length fs)" by (simp add: pass_offset_def)
    have "rank fs p div Stride \<noteq> r"
      using div_eq_iff_range[OF S, of "rank fs p" r] gt lt by auto
    then show ?thesis unfolding lane_of_def K using lt by simp
  qed
qed

lemma filter_split_mono:
  assumes "\<And>p q. p < q \<Longrightarrow> q < m \<Longrightarrow> Q p \<Longrightarrow> \<not> P q" and "\<And>p. p < m \<Longrightarrow> \<not> (P p \<and> Q p)"
  shows "filter P [0..<m] @ filter Q [0..<m] = filter (\<lambda>p. P p \<or> Q p) [0..<m]"
  using assms
proof (induction m)
  case 0
  then show ?case by simp
next
  case (Suc m)
  have IH: "filter P [0..<m] @ filter Q [0..<m] = filter (\<lambda>p. P p \<or> Q p) [0..<m]"
    by (rule Suc.IH) (use Suc.prems in auto)
  show ?case
  proof (cases "P m")
    case True
    have "\<And>p. p \<in> set [0..<m] \<Longrightarrow> \<not> Q p" using Suc.prems(1)[of _ m] True by auto
    then have none: "filter Q [0..<m] = []" by (simp add: filter_empty_conv)
    have "\<not> Q m" using Suc.prems(2)[of m] True by simp
    then show ?thesis using True none IH by simp
  next
    case False
    then show ?thesis using IH by simp
  qed
qed

lemma passes_partition:
  assumes S: "0 < Stride"
  shows "concat (map (\<lambda>r. filter (\<lambda>p. fs ! p \<and> rank fs p div Stride = r) [0..<length fs]) [0..<ns])
           = filter (\<lambda>p. fs ! p \<and> rank fs p < ns * Stride) [0..<length fs]"
proof (induction ns)
  case 0
  then show ?case by simp
next
  case (Suc ns)
  let ?P = "\<lambda>p. fs ! p \<and> rank fs p < ns * Stride"
  let ?Q = "\<lambda>p. fs ! p \<and> rank fs p div Stride = ns"
  have split: "filter ?P [0..<length fs] @ filter ?Q [0..<length fs]
                 = filter (\<lambda>p. ?P p \<or> ?Q p) [0..<length fs]"
  proof (rule filter_split_mono)
    fix p q assume pq: "p < q" "q < length fs" and Q: "?Q p"
    then have "rank fs p < rank fs q" by (intro rank_less) auto
    moreover have "ns * Stride \<le> rank fs p" using Q div_eq_iff_range[OF S, of "rank fs p" ns] by simp
    ultimately show "\<not> ?P q" by simp
  next
    fix p assume "p < length fs"
    show "\<not> (?P p \<and> ?Q p)" using div_eq_iff_range[OF S, of "rank fs p" ns] by auto
  qed
  have "(\<lambda>p. ?P p \<or> ?Q p) = (\<lambda>p. fs ! p \<and> rank fs p < Suc ns * Stride)"
  proof (rule ext)
    fix p
    have "rank fs p < ns * Stride \<or> rank fs p div Stride = ns \<longleftrightarrow> rank fs p < Suc ns * Stride"
      using div_eq_iff_range[OF S, of "rank fs p" ns] by auto
    then show "(?P p \<or> ?Q p) = (fs ! p \<and> rank fs p < Suc ns * Stride)" by blast
  qed
  with split Suc.IH show ?case by simp
qed

lemma concat_map_if:
  "concat (map (\<lambda>x. if A x then g x else []) xs) = concat (map g (filter A xs))"
  by (induction xs) simp_all

lemma concat_map_concat:
  "concat (map (\<lambda>r. concat (map h (F r))) rs) = concat (map h (concat (map F rs)))"
  by (induction rs) simp_all

lemma position_cells_pass:
  assumes S: "0 < Stride" and p: "p < length fs"
  shows "position_cells Stride sizes fs nres (pass_offset Stride fs r) out p =
           (if fs ! p \<and> rank fs p div Stride = r
            then cell_row sizes nres p (\<lambda>k. jet_v (out ! k) ! (rank fs p mod Stride)) else [])"
  unfolding position_cells_def lane_of_pass[OF S p] by (simp add: cell_row_def)

lemma pass_cells_pass:
  assumes S: "0 < Stride"
  shows "pass_cells Stride sizes fs nres (pass_offset Stride fs r) (outs ! r) =
           concat (map (\<lambda>p. cell_row sizes nres p
                              (\<lambda>k. jet_v (outs ! (rank fs p div Stride) ! k) ! (rank fs p mod Stride)))
                    (filter (\<lambda>p. fs ! p \<and> rank fs p div Stride = r) [0..<length fs]))"
proof -
  have "pass_cells Stride sizes fs nres (pass_offset Stride fs r) (outs ! r) =
          concat (map (\<lambda>p. if fs ! p \<and> rank fs p div Stride = r
                            then cell_row sizes nres p (\<lambda>k. jet_v (outs ! r ! k) ! (rank fs p mod Stride))
                            else []) [0..<length fs])"
    unfolding pass_cells_def
    by (rule arg_cong[where f = concat], rule map_cong[OF refl]) (simp add: position_cells_pass[OF S])
  also have "\<dots> = concat (map (\<lambda>p. cell_row sizes nres p (\<lambda>k. jet_v (outs ! r ! k) ! (rank fs p mod Stride)))
                        (filter (\<lambda>p. fs ! p \<and> rank fs p div Stride = r) [0..<length fs]))"
    by (rule concat_map_if)
  also have "\<dots> = concat (map (\<lambda>p. cell_row sizes nres p
                              (\<lambda>k. jet_v (outs ! (rank fs p div Stride) ! k) ! (rank fs p mod Stride)))
                    (filter (\<lambda>p. fs ! p \<and> rank fs p div Stride = r) [0..<length fs]))"
    by (rule arg_cong[where f = concat], rule map_cong[OF refl]) simp
  finally show ?thesis .
qed

lemma all_pass_cells:
  assumes S: "0 < Stride"
  shows "concat (map (\<lambda>r. pass_cells Stride sizes fs nres (pass_offset Stride fs r) (outs ! r)) [0..<ns])
           = concat (map (\<lambda>p. cell_row sizes nres p
                              (\<lambda>k. jet_v (outs ! (rank fs p div Stride) ! k) ! (rank fs p mod Stride)))
                      (filter (\<lambda>p. fs ! p \<and> rank fs p < ns * Stride) [0..<length fs]))"
  unfolding pass_cells_pass[OF S] concat_map_concat passes_partition[OF S] ..

lemma distinct_positions: "distinct (positions sizes)"
proof (induction sizes rule: rev_induct)
  case Nil
  then show ?case by (simp add: positions_def)
next
  case (snoc s sizes)
  have "distinct (map (Pair (length sizes)) [0..<s])" by (simp add: distinct_map inj_on_def)
  moreover have "set (positions sizes) \<inter> set (map (Pair (length sizes)) [0..<s]) = {}"
    using positions_mem[of _ _ sizes] by fastforce
  ultimately show ?case using snoc.IH by (simp add: positions_snoc)
qed

lemma positions_index:
  assumes "p < sum_list sizes" "positions sizes ! p = (i, j)"
  shows "i < length sizes \<and> j < sizes ! i \<and> p = sum_list (take i sizes) + j"
proof -
  have "(i, j) \<in> set (positions sizes)"
    using assms by (metis length_positions nth_mem)
  then have ij: "i < length sizes" "j < sizes ! i" using positions_mem by blast+
  have "sum_list (take i sizes) + j < sum_list (take (Suc i) sizes)"
    using ij by (simp add: take_Suc_conv_app_nth)
  moreover have "sum_list (take (Suc i) sizes) \<le> sum_list sizes"
    by (metis append_take_drop_id le_add1 sum_list_append)
  ultimately have lt: "sum_list (take i sizes) + j < length (positions sizes)"
    by (simp add: length_positions)
  have "positions sizes ! (sum_list (take i sizes) + j) = positions sizes ! p"
    using positions_nth[OF ij] assms(2) by simp
  then have "sum_list (take i sizes) + j = p"
    using nth_eq_iff_index_eq[OF distinct_positions lt, of p] assms(1) by (simp add: length_positions)
  with ij show ?thesis by simp
qed

lemma position_in_range:
  fixes sizes :: "nat list"
  assumes "i < length sizes" "j < sizes ! i"
  shows "sum_list (take i sizes) + j < sum_list sizes"
proof -
  have "sum_list (take i sizes) + j < sum_list (take (Suc i) sizes)"
    using assms by (simp add: take_Suc_conv_app_nth)
  moreover have "sum_list (take (Suc i) sizes) \<le> sum_list sizes"
    by (metis append_take_drop_id le_add1 sum_list_append)
  ultimately show ?thesis by simp
qed

lemma concat_map_product:
  "concat (map (\<lambda>p. map (\<lambda>k. c (p, k)) ks) ps) = map c (List.product ps ks)"
  by (induction ps) (simp_all add: comp_def)

lemma mult_add_inj:
  fixes s :: nat
  assumes "j < s" "j' < s" "k * s + j = k' * s + j'"
  shows "k = k' \<and> j = j'"
proof -
  have "(k * s + j) div s = k" "(k' * s + j') div s = k'" using assms(1,2) by simp_all
  with assms(3) have "k = k'" by simp
  with assms(3) show ?thesis by simp
qed

lemma cell_row_cells:
  "map (\<lambda>(i, off, x). (i, off)) (cell_row sizes nres p f) = map (\<lambda>k. cell_of sizes (p, k)) [0..<nres]"
  by (simp add: cell_row_def cell_of_def comp_def)

lemma cells_of_rows:
  "map (\<lambda>(i, off, x). (i, off)) (concat (map (\<lambda>p. cell_row sizes nres p (f p)) ps))
     = map (cell_of sizes) (List.product ps [0..<nres])"
proof -
  have "map (\<lambda>(i, off, x). (i, off)) (concat (map (\<lambda>p. cell_row sizes nres p (f p)) ps))
          = concat (map (\<lambda>p. map (\<lambda>k. cell_of sizes (p, k)) [0..<nres]) ps)"
    by (simp add: map_concat comp_def cell_row_cells)
  then show ?thesis by (simp only: concat_map_product)
qed

lemma cell_of_inj:
  assumes "\<forall>p\<in>set ps. p < sum_list sizes"
  shows "inj_on (cell_of sizes) (set (List.product ps [0..<nres]))"
proof (rule inj_onI)
  fix a b
  assume a: "a \<in> set (List.product ps [0..<nres])" and b: "b \<in> set (List.product ps [0..<nres])"
    and eq: "cell_of sizes a = cell_of sizes b"
  obtain p k where ak: "a = (p, k)" by (cases a)
  obtain p' k' where bk: "b = (p', k')" by (cases b)
  have p: "p < sum_list sizes" "p' < sum_list sizes" using a b assms ak bk by auto
  obtain i j where ij: "positions sizes ! p = (i, j)" by (cases "positions sizes ! p")
  obtain i' j' where ij': "positions sizes ! p' = (i', j')" by (cases "positions sizes ! p'")
  from positions_index[OF p(1) ij] have r: "j < sizes ! i" "p = sum_list (take i sizes) + j" by simp_all
  from positions_index[OF p(2) ij'] have r': "j' < sizes ! i'" "p' = sum_list (take i' sizes) + j'" by simp_all
  from eq have both: "i = i' \<and> k * sizes ! i + j = k' * sizes ! i' + j'"
    by (auto simp: cell_of_def ak bk ij ij')
  then have i: "i = i'" and e: "k * sizes ! i + j = k' * sizes ! i + j'" by blast+
  have r'': "j' < sizes ! i" using r'(1) i by simp
  from mult_add_inj[OF r(1) r'' e] have "k = k'" "j = j'" by simp_all
  with i r r' show "a = b" by (simp add: ak bk)
qed

lemma cells_distinct:
  assumes "distinct ps" "\<forall>p\<in>set ps. p < sum_list sizes"
  shows "distinct (map (cell_of sizes) (List.product ps [0..<nres]))"
  using assms(1) cell_of_inj[OF assms(2), of nres] by (simp add: distinct_map distinct_product)

lemma cells_set:
  "cell_of sizes ` set (List.product (filter (\<lambda>p. request_flags sizes jac ! p) [0..<sum_list sizes]) [0..<nres])
     = {(i, k * sizes ! i + j) | i j k. i < length sizes \<and> jac ! i \<noteq> None \<and> j < sizes ! i \<and> k < nres}"
  (is "?L = ?R")
proof (intro equalityI subsetI)
  fix c assume "c \<in> ?L"
  then obtain p k where p: "p < sum_list sizes" "request_flags sizes jac ! p" and k: "k < nres"
    and c: "c = cell_of sizes (p, k)" by auto
  obtain i j where ij: "positions sizes ! p = (i, j)" by (cases "positions sizes ! p")
  from positions_index[OF p(1) ij] have r: "i < length sizes" "j < sizes ! i" by simp_all
  have "jac ! i \<noteq> None" using request_flags_position[OF p(1) ij, of jac] p(2) by simp
  with r k c ij show "c \<in> ?R" by (auto simp: cell_of_def)
next
  fix c assume "c \<in> ?R"
  then obtain i j k where r: "i < length sizes" "jac ! i \<noteq> None" "j < sizes ! i" "k < nres"
    and c: "c = (i, k * sizes ! i + j)" by blast
  let ?p = "sum_list (take i sizes) + j"
  have p: "?p < sum_list sizes" by (rule position_in_range[OF r(1) r(3)])
  have ij: "positions sizes ! ?p = (i, j)" by (rule positions_nth[OF r(1) r(3)])
  have "request_flags sizes jac ! ?p" using request_flags_nth[OF r(1) r(3), of jac] r(2) by simp
  with p r(4) have "(?p, k) \<in> set (List.product (filter (\<lambda>p. request_flags sizes jac ! p) [0..<sum_list sizes]) [0..<nres])"
    by simp
  moreover have "cell_of sizes (?p, k) = c" by (simp add: cell_of_def ij c)
  ultimately show "c \<in> ?L" by blast
qed

lemma ceiling_covers:
  fixes n S :: nat
  assumes "0 < S"
  shows "n \<le> (n + S - 1) div S * S"
proof -
  have "n + S - 1 < S + (n + S - 1) div S * S" by (rule dividend_less_div_times[OF assms])
  with assms show ?thesis by simp
qed

lemma Evaluate_exact:
  fixes cf :: "'a::{zero,one} cost_function"
  assumes pos: "0 < num_residuals cf"
    and sizes: "\<forall>s\<in>set (parameter_block_sizes cf). 0 < s"
    and shape: "map length parameters = parameter_block_sizes cf"
    and lenj: "length jac = length (parameter_block_sizes cf)"
    and S: "0 < Stride"
    and act: "num_active_parameters (discover Stride (parameter_block_sizes cf) parameters jac) \<noteq> 0"
  defines "fs \<equiv> request_flags (parameter_block_sizes cf) jac"
  defines "ns \<equiv> num_strides_of (num_active_parameters
                    (discover Stride (parameter_block_sizes cf) parameters jac)) Stride"
  defines "xs \<equiv> concat parameters"
  shows "\<exists>out. Evaluate Stride cf parameters res (Some jac) = Inr out \<and>
          (if returned out
           then \<exists>outs. pass_chain cf Stride fs xs outs ns \<and>
                  calls out = map (\<lambda>k. Dual (seeded Stride fs xs (pass_offset Stride fs k)) True) [0..<ns] \<and>
                  cells_written out = map (\<lambda>(i, off, x). (i, off))
                     (written Stride (parameter_block_sizes cf) fs (nat (num_residuals cf)) ns outs) \<and>
                  jacobians_out out = Some (apply_writes
                     (written Stride (parameter_block_sizes cf) fs (nat (num_residuals cf)) ns outs) jac)
           else \<exists>r outs. r < ns \<and> pass_chain cf Stride fs xs outs r \<and>
                  \<not> fst (dual (functor_ptr cf)
                     (jet_pack (map (\<lambda>i. sum_list (take i (parameter_block_sizes cf)))
                                  [0..<length (parameter_block_sizes cf)])
                        (parameter_block_sizes cf) (seeded Stride fs xs (pass_offset Stride fs r)))
                     ((replicate (nat (num_residuals cf)) (zero_jet Stride) # outs) ! r)) \<and>
                  calls out = map (\<lambda>k. Dual (seeded Stride fs xs (pass_offset Stride fs k)) True) [0..<r]
                                @ [Dual (seeded Stride fs xs (pass_offset Stride fs r)) False] \<and>
                  jacobians_out out = Some (apply_writes
                     (written Stride (parameter_block_sizes cf) fs (nat (num_residuals cf)) r outs) jac))"
proof -
  let ?sizes = "parameter_block_sizes cf"
  let ?nres = "nat (num_residuals cf)"
  let ?d = "discover Stride ?sizes parameters jac"
  let ?zeros = "replicate ?nres (zero_jet Stride :: 'a Jet)"
  have offs: "jet_parameters ?d = map (\<lambda>i. sum_list (take i ?sizes)) [0..<length ?sizes]"
    by (rule discover_counts(3))
  from Evaluate_strided[OF lenj pos act, of res]
  obtain ok s' where run: "strided Stride cf res jac ?d = Inr (ok, s')"
    and ev: "Evaluate Stride cf parameters res (Some jac) =
             Inr \<lparr>returned = ok, residuals_out = residuals s', jacobians_out = Some (jacobians s'),
                  calls = invocations s',
                  cells_written = map (\<lambda>(i, off, x). (i, off)) (writes s')\<rparr>"
    by blast
  from strided_exact[OF sizes shape lenj, of Stride res]
  obtain ok2 s2 where run2: "strided Stride cf res jac ?d = Inr (ok2, s2)"
    and ex: "if ok2
            then \<exists>outs. exact_passes cf Stride (jet_parameters ?d) (sections ?d) fs jac xs ?zeros ns s2 outs
            else \<exists>r outs. r < ns \<and> failed_pass cf Stride (jet_parameters ?d) fs jac xs ?zeros r s2 outs"
    unfolding fs_def ns_def xs_def by blast
  from run run2 have same: "ok2 = ok" "s2 = s'" by simp_all
  show ?thesis
  proof (cases ok)
    case True
    with ex same obtain outs where
      e: "exact_passes cf Stride (jet_parameters ?d) (sections ?d) fs jac xs ?zeros ns s' outs"
      by auto
    have w: "writes s' = written Stride ?sizes fs ?nres ns outs"
      using e unfolding exact_passes_def written_def all_pass_cells[OF S, symmetric] by blast
    have j: "jacobians s' = apply_writes (written Stride ?sizes fs ?nres ns outs) jac"
      using e w unfolding exact_passes_def by simp
    have c: "pass_chain cf Stride fs xs outs ns"
      using e unfolding exact_passes_def pass_chain_def offs by blast
    have i: "invocations s' = map (\<lambda>k. Dual (seeded Stride fs xs (pass_offset Stride fs k)) True) [0..<ns]"
      using e unfolding exact_passes_def by blast
    have "\<exists>outs. pass_chain cf Stride fs xs outs ns \<and>
                  invocations s' = map (\<lambda>k. Dual (seeded Stride fs xs (pass_offset Stride fs k)) True) [0..<ns] \<and>
                  map (\<lambda>(i, off, x). (i, off)) (writes s') = map (\<lambda>(i, off, x). (i, off))
                     (written Stride ?sizes fs ?nres ns outs) \<and>
                  jacobians s' = apply_writes (written Stride ?sizes fs ?nres ns outs) jac"
      using c i j w by (intro exI[of _ outs]) simp
    then show ?thesis
      unfolding ev using True by (intro exI[of _ "\<lparr>returned = ok, residuals_out = residuals s',
           jacobians_out = Some (jacobians s'), calls = invocations s',
           cells_written = map (\<lambda>(i, off, x). (i, off)) (writes s')\<rparr>"]) simp
  next
    case False
    with ex same obtain r outs where r: "r < ns"
      and e: "failed_pass cf Stride (jet_parameters ?d) fs jac xs ?zeros r s' outs"
      by auto
    have w: "writes s' = written Stride ?sizes fs ?nres r outs"
      using e unfolding failed_pass_def written_def all_pass_cells[OF S, symmetric] by blast
    have j: "jacobians s' = apply_writes (written Stride ?sizes fs ?nres r outs) jac"
      using e w unfolding failed_pass_def by simp
    have c: "pass_chain cf Stride fs xs outs r"
      using e unfolding failed_pass_def pass_chain_def offs by blast
    have f: "\<not> fst (dual (functor_ptr cf)
                     (jet_pack (map (\<lambda>i. sum_list (take i ?sizes)) [0..<length ?sizes])
                        ?sizes (seeded Stride fs xs (pass_offset Stride fs r)))
                     ((?zeros # outs) ! r))"
      using e unfolding failed_pass_def offs by blast
    have i: "invocations s' = map (\<lambda>k. Dual (seeded Stride fs xs (pass_offset Stride fs k)) True) [0..<r]
                                @ [Dual (seeded Stride fs xs (pass_offset Stride fs r)) False]"
      using e unfolding failed_pass_def by blast
    have "\<exists>r outs. r < ns \<and> pass_chain cf Stride fs xs outs r \<and>
                  \<not> fst (dual (functor_ptr cf)
                     (jet_pack (map (\<lambda>i. sum_list (take i ?sizes)) [0..<length ?sizes])
                        ?sizes (seeded Stride fs xs (pass_offset Stride fs r)))
                     ((?zeros # outs) ! r)) \<and>
                  invocations s' = map (\<lambda>k. Dual (seeded Stride fs xs (pass_offset Stride fs k)) True) [0..<r]
                                @ [Dual (seeded Stride fs xs (pass_offset Stride fs r)) False] \<and>
                  jacobians s' = apply_writes (written Stride ?sizes fs ?nres r outs) jac"
      using r c f i j by blast
    then show ?thesis
      unfolding ev using False by (intro exI[of _ "\<lparr>returned = ok, residuals_out = residuals s',
           jacobians_out = Some (jacobians s'), calls = invocations s',
           cells_written = map (\<lambda>(i, off, x). (i, off)) (writes s')\<rparr>"]) simp
  qed
qed

lemma seeded_nth:
  assumes "p < length fs"
  shows "jet_v (seeded Stride fs xs K ! p) = seed_vector Stride (lane_of Stride fs K p)"
  using assms by (simp add: seeded_def)

text \<open>
  What the seeding and scatter loops achieve when no block is empty: on the derivative
  path, with every block size positive and fewer than \<open>2^24\<close> active parameters, a call of
  \<^verbatim>\<open>Evaluate\<close> that returns \<^verbatim>\<open>true\<close> has seeded every scalar position of a requested block
  with a one-hot direction in exactly one pass and with the zero vector in every other
  pass, has seeded the positions of the other blocks with the zero vector in every pass,
  and has written every cell (residual row \<open>k\<close>, column \<open>j\<close>) of every requested block
  exactly once, and no other cell.
\<close>

lemma each_position_seeded_once:
  fixes cf :: "'a::{zero,one} cost_function"
  assumes pos: "0 < num_residuals cf"
    and sizes: "\<forall>s\<in>set (parameter_block_sizes cf). 0 < s"
    and shape: "map length parameters = parameter_block_sizes cf"
    and lenj: "length jac = length (parameter_block_sizes cf)"
    and S: "0 < Stride"
    and act: "num_active_parameters (discover Stride (parameter_block_sizes cf) parameters jac) \<noteq> 0"
    and small: "num_active_parameters (discover Stride (parameter_block_sizes cf) parameters jac) < 2 ^ 24"
    and run: "Evaluate Stride cf parameters res (Some jac) = Inr out"
    and ret: "returned out"
  shows "(\<forall>i<length (parameter_block_sizes cf). \<forall>j<parameter_block_sizes cf ! i.
            if jac ! i \<noteq> None
            then \<exists>pass<length (calls out). \<exists>lane<Stride. \<forall>r<length (calls out).
                   jet_v (seeded_jets (calls out ! r) ! (sum_list (take i (parameter_block_sizes cf)) + j))
                     = (if r = pass then (replicate Stride 0)[lane := 1] else replicate Stride 0)
            else \<forall>r<length (calls out).
                   jet_v (seeded_jets (calls out ! r) ! (sum_list (take i (parameter_block_sizes cf)) + j))
                     = replicate Stride 0) \<and>
         distinct (cells_written out) \<and>
         set (cells_written out) =
           {(i, k * parameter_block_sizes cf ! i + j) | i j k.
              i < length (parameter_block_sizes cf) \<and> jac ! i \<noteq> None \<and>
              j < parameter_block_sizes cf ! i \<and> k < nat (num_residuals cf)}"
proof -
  let ?sizes = "parameter_block_sizes cf"
  let ?nres = "nat (num_residuals cf)"
  let ?fs = "request_flags ?sizes jac"
  let ?N = "num_active_parameters (discover Stride ?sizes parameters jac)"
  let ?ns = "num_strides_of ?N Stride"
  let ?xs = "concat parameters"
  have N: "?N = rank ?fs (length ?fs)" by (rule discover_active)
  have ns: "?ns = (?N + Stride - 1) div Stride"
    by (rule num_strides_exact) (use act small S in simp_all)
  have cover: "?N \<le> ?ns * Stride" unfolding ns by (rule ceiling_covers[OF S])
  have below: "rank ?fs p < ?ns * Stride" if "p < length ?fs" "?fs ! p" for p
    using rank_below_total[OF that] cover N by simp
  from Evaluate_exact[OF pos sizes shape lenj S act, of res]
  obtain out' where ev: "Evaluate Stride cf parameters res (Some jac) = Inr out'"
    and rest: "if returned out'
           then \<exists>outs. pass_chain cf Stride ?fs ?xs outs ?ns \<and>
                  calls out' = map (\<lambda>k. Dual (seeded Stride ?fs ?xs (pass_offset Stride ?fs k)) True) [0..<?ns] \<and>
                  cells_written out' = map (\<lambda>(i, off, x). (i, off)) (written Stride ?sizes ?fs ?nres ?ns outs) \<and>
                  jacobians_out out' = Some (apply_writes (written Stride ?sizes ?fs ?nres ?ns outs) jac)
           else True"
    by (metis (no_types, lifting))
  have same: "out' = out" using ev run by simp
  from rest ret have "\<exists>outs. pass_chain cf Stride ?fs ?xs outs ?ns \<and>
                  calls out = map (\<lambda>k. Dual (seeded Stride ?fs ?xs (pass_offset Stride ?fs k)) True) [0..<?ns] \<and>
                  cells_written out = map (\<lambda>(i, off, x). (i, off)) (written Stride ?sizes ?fs ?nres ?ns outs) \<and>
                  jacobians_out out = Some (apply_writes (written Stride ?sizes ?fs ?nres ?ns outs) jac)"
    unfolding same by (simp only: if_True)
  then obtain outs where both: "pass_chain cf Stride ?fs ?xs outs ?ns \<and>
                  calls out = map (\<lambda>k. Dual (seeded Stride ?fs ?xs (pass_offset Stride ?fs k)) True) [0..<?ns] \<and>
                  cells_written out = map (\<lambda>(i, off, x). (i, off)) (written Stride ?sizes ?fs ?nres ?ns outs) \<and>
                  jacobians_out out = Some (apply_writes (written Stride ?sizes ?fs ?nres ?ns outs) jac)" ..
  have calls: "calls out = map (\<lambda>k. Dual (seeded Stride ?fs ?xs (pass_offset Stride ?fs k)) True) [0..<?ns]"
    using both by (elim conjE)
  have cells: "cells_written out = map (\<lambda>(i, off, x). (i, off)) (written Stride ?sizes ?fs ?nres ?ns outs)"
    using both by (elim conjE)
  have all: "filter (\<lambda>p. ?fs ! p \<and> rank ?fs p < ?ns * Stride) [0..<length ?fs]
               = filter (\<lambda>p. ?fs ! p) [0..<sum_list ?sizes]"
    using below by (auto intro: filter_cong)
  have cw: "cells_written out =
              map (cell_of ?sizes) (List.product (filter (\<lambda>p. ?fs ! p) [0..<sum_list ?sizes]) [0..<?nres])"
    unfolding cells written_def all by (rule cells_of_rows)
  have d: "distinct (cells_written out)"
    unfolding cw by (rule cells_distinct) simp_all
  have s: "set (cells_written out) =
           {(i, k * ?sizes ! i + j) | i j k.
              i < length ?sizes \<and> jac ! i \<noteq> None \<and> j < ?sizes ! i \<and> k < ?nres}"
    unfolding cw set_map by (rule cells_set)
  have lc: "length (calls out) = ?ns" by (simp add: calls)
  have seed: "jet_v (seeded_jets (calls out ! r) ! p) =
                (if ?fs ! p \<and> rank ?fs p div Stride = r
                 then (replicate Stride 0)[rank ?fs p mod Stride := 1] else replicate Stride 0)"
    if "r < ?ns" "p < length ?fs" for r p
    using that by (simp add: calls seeded_nth lane_of_pass[OF S] seed_vector_def)
  have a: "\<forall>i<length ?sizes. \<forall>j<?sizes ! i.
            if jac ! i \<noteq> None
            then \<exists>pass<length (calls out). \<exists>lane<Stride. \<forall>r<length (calls out).
                   jet_v (seeded_jets (calls out ! r) ! (sum_list (take i ?sizes) + j))
                     = (if r = pass then (replicate Stride 0)[lane := 1] else replicate Stride 0)
            else \<forall>r<length (calls out).
                   jet_v (seeded_jets (calls out ! r) ! (sum_list (take i ?sizes) + j))
                     = replicate Stride 0"
  proof (intro allI impI)
    fix i j assume i: "i < length ?sizes" and j: "j < ?sizes ! i"
    let ?p = "sum_list (take i ?sizes) + j"
    have p: "?p < length ?fs" using position_in_range[OF i j] by simp
    have f: "?fs ! ?p = (jac ! i \<noteq> None)" by (rule request_flags_nth[OF i j])
    show "if jac ! i \<noteq> None
            then \<exists>pass<length (calls out). \<exists>lane<Stride. \<forall>r<length (calls out).
                   jet_v (seeded_jets (calls out ! r) ! ?p)
                     = (if r = pass then (replicate Stride 0)[lane := 1] else replicate Stride 0)
            else \<forall>r<length (calls out). jet_v (seeded_jets (calls out ! r) ! ?p) = replicate Stride 0"
    proof (cases "jac ! i \<noteq> None")
      case True
      then have fp: "?fs ! ?p" using f by simp
      have "rank ?fs ?p div Stride < ?ns"
        using below[OF p fp] by (rule less_mult_imp_div_less)
      moreover have "rank ?fs ?p mod Stride < Stride" using S by simp
      moreover have "\<forall>r<length (calls out). jet_v (seeded_jets (calls out ! r) ! ?p)
                     = (if r = rank ?fs ?p div Stride
                        then (replicate Stride 0)[rank ?fs ?p mod Stride := 1] else replicate Stride 0)"
        using seed[OF _ p] fp lc by auto
      ultimately show ?thesis using True lc by auto
    next
      case False
      then have "\<not> ?fs ! ?p" using f by simp
      then show ?thesis using False seed[OF _ p] lc by auto
    qed
  qed
  from a d s show ?thesis by blast
qed

lemma each_position_seeded_once_example:
  "\<exists>out. Evaluate 2 two_block_cost [[1, 2], [3, 4]] [0, 0] (Some [Some [0, 0, 0, 0], Some [0, 0, 0, 0]]) = Inr out \<and>
     returned out \<and>
     calls out = [Dual [Jet 1 [1, 0], Jet 2 [0, 1], Jet 3 [0, 0], Jet 4 [0, 0]] True,
                  Dual [Jet 1 [0, 0], Jet 2 [0, 0], Jet 3 [1, 0], Jet 4 [0, 1]] True] \<and>
     distinct (cells_written out) \<and>
     set (cells_written out) =
       {(i, k * parameter_block_sizes two_block_cost ! i + j) | i j k.
          i < length (parameter_block_sizes two_block_cost) \<and>
          [Some [0, 0, 0, 0], Some [0, 0, 0, 0 :: real]] ! i \<noteq> None \<and>
          j < parameter_block_sizes two_block_cost ! i \<and> k < nat (num_residuals two_block_cost)}"
proof -
  let ?jac = "[Some [0, 0, 0, 0], Some [0, 0, 0, 0 :: real]]"
  let ?out = "\<lparr>returned = True, residuals_out = [10, 20 :: real],
        jacobians_out = Some [Some [2, 0, 0, 4], Some [6, 0, 0, 8]],
        calls = [Dual [Jet 1 [1, 0], Jet 2 [0, 1], Jet 3 [0, 0], Jet 4 [0, 0]] True,
                 Dual [Jet 1 [0, 0], Jet 2 [0, 0], Jet 3 [1, 0], Jet 4 [0, 1]] True],
        cells_written = [(0, 0), (0, 2), (0, 1), (0, 3), (1, 0), (1, 2), (1, 1), (1, 3)]\<rparr>"
  have 1: "0 < num_residuals two_block_cost" by (simp add: two_block_cost_def)
  have 2: "\<forall>s\<in>set (parameter_block_sizes two_block_cost). 0 < s" by (simp add: two_block_cost_def)
  have 3: "map length [[1, 2], [3, 4 :: real]] = parameter_block_sizes two_block_cost"
    by (simp add: two_block_cost_def)
  have 4: "length ?jac = length (parameter_block_sizes two_block_cost)" by (simp add: two_block_cost_def)
  have 5: "0 < (2 :: nat)" by simp
  have n: "num_active_parameters (discover 2 (parameter_block_sizes two_block_cost) [[1, 2], [3, 4]] ?jac) = 4"
    by code_simp
  have 6: "num_active_parameters (discover 2 (parameter_block_sizes two_block_cost) [[1, 2], [3, 4]] ?jac) \<noteq> 0"
    unfolding n by simp
  have 7: "num_active_parameters (discover 2 (parameter_block_sizes two_block_cost) [[1, 2], [3, 4]] ?jac) < 2 ^ 24"
    unfolding n by simp
  have e: "Evaluate 2 two_block_cost [[1, 2], [3, 4]] [0, 0] (Some ?jac) = Inr ?out"
    by code_simp
  have r: "returned ?out" by simp
  note th = each_position_seeded_once[OF 1 2 3 4 5 6 7 e r]
  have d: "distinct (cells_written ?out)" using th by (elim conjE)
  have s: "set (cells_written ?out) =
       {(i, k * parameter_block_sizes two_block_cost ! i + j) | i j k.
          i < length (parameter_block_sizes two_block_cost) \<and> ?jac ! i \<noteq> None \<and>
          j < parameter_block_sizes two_block_cost ! i \<and> k < nat (num_residuals two_block_cost)}"
    using th by (elim conjE)
  have c: "calls ?out = [Dual [Jet 1 [1, 0], Jet 2 [0, 1], Jet 3 [0, 0], Jet 4 [0, 0]] True,
                  Dual [Jet 1 [0, 0], Jet 2 [0, 0], Jet 3 [1, 0], Jet 4 [0, 1]] True]" by simp
  show ?thesis by (rule exI[of _ ?out]) (intro conjI e r c d s)
qed

text \<open>
  A call on the derivative path that a failing functor ends in its first pass: two blocks
  of two parameters, both requested, stride 2.  The two positions of block 1 are seeded in
  no pass and no Jacobian cell is written.
\<close>

lemma failed_call_seeds_and_writes_less:
  "num_active_parameters (discover 2 (parameter_block_sizes refusing_cost) [[1, 2], [3, 4]]
      [Some [0, 0, 0, 0], Some [0, 0, 0, 0 :: real]]) = 4 \<and>
   Evaluate 2 refusing_cost [[1, 2], [3, 4]] [0, 0] (Some [Some [0, 0, 0, 0], Some [0, 0, 0, 0]]) =
     Inr \<lparr>returned = False, residuals_out = [0, 0],
          jacobians_out = Some [Some [0, 0, 0, 0], Some [0, 0, 0, 0]],
          calls = [Dual [Jet 1 [1, 0], Jet 2 [0, 1], Jet 3 [0, 0], Jet 4 [0, 0]] False],
          cells_written = []\<rparr>"
  by code_simp

text \<open>
  Claim C1 fails on a call with empty blocks.  Blocks of sizes 1, 0, 0, 1, 2 with the
  slots of blocks 0, 2 and 4 requested, stride 1: three parameters are active, at
  positions 0, 2 and 3 of the flattened parameter space.  The call returns \<^verbatim>\<open>true\<close> after
  three passes.  Position 2 is seeded in the second pass and again in the third, position
  3 is seeded in no pass; cell 0 of block 4 is written twice and cell 1 of block 4 never
  (it keeps the 9 the caller's buffer held).  The empty requested block 2 records a
  section boundary at position 1, which belongs to the unrequested block 3, so offsets
  into that section are one position short of the positions processed.
\<close>

theorem empty_blocks_reseed_and_skip:
  "num_active_parameters (discover 1 (parameter_block_sizes gap_cost) [[1], [], [], [5], [2, 3]]
      [Some [7], None, Some [], None, Some [8, 9 :: real]]) = 3 \<and>
   Evaluate 1 gap_cost [[1], [], [], [5], [2, 3]] [0] (Some [Some [7], None, Some [], None, Some [8, 9]]) =
     Inr \<lparr>returned = True, residuals_out = [11],
          jacobians_out = Some [Some [1], None, Some [], None, Some [1, 9]],
          calls = [Dual [Jet 1 [1], Jet 5 [0], Jet 2 [0], Jet 3 [0]] True,
                   Dual [Jet 1 [0], Jet 5 [0], Jet 2 [1], Jet 3 [0]] True,
                   Dual [Jet 1 [0], Jet 5 [0], Jet 2 [1], Jet 3 [0]] True],
          cells_written = [(0, 0), (4, 0), (4, 0)]\<rparr>"
  by code_simp

text \<open>
  Claim C3 fails on the same cost function: the same functor, parameter values, buffers
  and request give the Jacobian \<open>[1, 0]\<close> for block 4 at stride 1, where the second entry
  is what the caller's buffer held, and \<open>[1, 1]\<close>, the derivative of the sum, at stride 4.
  The residual is 11 at both widths.
\<close>

theorem stride_changes_jacobian_entries:
  "(\<exists>narrow wide.
      Evaluate 1 gap_cost [[1], [], [], [5], [2, 3]] [0] (Some [Some [0], None, Some [], None, Some [0, 0]])
        = Inr narrow \<and>
      Evaluate 4 gap_cost [[1], [], [], [5], [2, 3]] [0] (Some [Some [0], None, Some [], None, Some [0, 0]])
        = Inr wide \<and>
      returned narrow \<and> returned wide \<and>
      residuals_out narrow = [11] \<and> residuals_out wide = [11] \<and>
      length (calls narrow) = 3 \<and> length (calls wide) = 1 \<and>
      jacobians_out narrow = Some [Some [1], None, Some [], None, Some [1, 0]] \<and>
      jacobians_out wide = Some [Some [1], None, Some [], None, Some [1, 1]])"
proof -
  have 1: "Evaluate 1 gap_cost [[1], [], [], [5], [2, 3]] [0] (Some [Some [0], None, Some [], None, Some [0, 0]])
        = Inr \<lparr>returned = True, residuals_out = [11],
          jacobians_out = Some [Some [1], None, Some [], None, Some [1, 0]],
          calls = [Dual [Jet 1 [1], Jet 5 [0], Jet 2 [0], Jet 3 [0]] True,
                   Dual [Jet 1 [0], Jet 5 [0], Jet 2 [1], Jet 3 [0]] True,
                   Dual [Jet 1 [0], Jet 5 [0], Jet 2 [1], Jet 3 [0]] True],
          cells_written = [(0, 0), (4, 0), (4, 0)]\<rparr>"
    by code_simp
  have 4: "Evaluate 4 gap_cost [[1], [], [], [5], [2, 3]] [0] (Some [Some [0], None, Some [], None, Some [0, 0]])
        = Inr \<lparr>returned = True, residuals_out = [11],
          jacobians_out = Some [Some [1], None, Some [], None, Some [1, 1]],
          calls = [Dual [Jet 1 [1, 0, 0, 0], Jet 5 [0, 0, 0, 0], Jet 2 [0, 1, 0, 0], Jet 3 [0, 0, 1, 0]] True],
          cells_written = [(0, 0), (4, 0), (4, 1)]\<rparr>"
    by code_simp
  show ?thesis unfolding 1 4 by simp
qed

text \<open>
  Two calls whose residuals depend on the request.  The accumulating functor returns
  \<^verbatim>\<open>true\<close> and leaves 6 in a residual buffer that held 5 when \<^verbatim>\<open>jacobians\<close> is null, and 1
  when the slot is requested: the jet instance adds to a zeroed scratch buffer.  The
  functor that writes 42 and fails leaves 42 when \<^verbatim>\<open>jacobians\<close> is null, and the caller's
  -7 when the slot is requested: the residuals are copied only after a successful last pass.
\<close>

theorem residuals_depend_on_request:
  "Evaluate 4 accumulating_cost [[1]] [5] None =
     Inr \<lparr>returned = True, residuals_out = [6], jacobians_out = None,
          calls = [Plain [[1]] True], cells_written = []\<rparr> \<and>
   Evaluate 4 accumulating_cost [[1]] [5] (Some [Some [0]]) =
     Inr \<lparr>returned = True, residuals_out = [1], jacobians_out = Some [Some [1]],
          calls = [Dual [Jet 1 [1, 0, 0, 0]] True], cells_written = [(0, 0)]\<rparr> \<and>
   Evaluate 4 write_then_fail_cost [[42]] [- 7] None =
     Inr \<lparr>returned = False, residuals_out = [42], jacobians_out = None,
          calls = [Plain [[42]] False], cells_written = []\<rparr> \<and>
   Evaluate 4 write_then_fail_cost [[42]] [- 7] (Some [Some [0]]) =
     Inr \<lparr>returned = False, residuals_out = [- 7], jacobians_out = Some [Some [0]],
          calls = [Dual [Jet 42 [1, 0, 0, 0]] False], cells_written = []\<rparr>"
  by code_simp

lemma write_then_fail_consistent: "consistent_functor write_then_fail_cost"
  by (simp add: consistent_functor_def write_then_fail_cost_def write_then_fail_functor_def)

end
